theory Spec2Isabelle
  imports Main "HOL-Library.Sublist"
begin

section \<open>The literals of \<^verbatim>\<open>update_tasks.py\<close>\<close>

text \<open>
  The script edits a task plan as raw text.  A document is a \<^typ>\<open>string\<close>; the text
  the script reads and the text it writes are both values of that type (the decoding and
  the newline translation of \<^verbatim>\<open>read_text\<close> and \<^verbatim>\<open>write_text\<close> are outside the
  model).
\<close>

definition nl :: char where
  "nl = CHR 0x0A"

definition digit_char :: "nat \<Rightarrow> char" where
  "digit_char d = char_of (48 + d)"

text \<open>The decimal numeral of a natural number, most significant digit first.\<close>

fun decimal :: "nat \<Rightarrow> string" where
  "decimal n = (if n < 10 then [digit_char n] else decimal (n div 10) @ [digit_char (n mod 10)])"

declare decimal.simps [simp del]

text \<open>The format specification \<^verbatim>\<open>03d\<close>: zero-padded on the left to a width of at least 3.\<close>

definition format_03d :: "nat \<Rightarrow> string" where
  "format_03d n = replicate (3 - length (decimal n)) (CHR ''0'') @ decimal n"

text \<open>\<^verbatim>\<open>task_id = f"TASK-{task_num:03d}"\<close>\<close>

definition task_id :: "nat \<Rightarrow> string" where
  "task_id n = ''TASK-'' @ format_03d n"

text \<open>
  The pattern is \<^verbatim>\<open>(- task_id: "TASK-NNN".*?)status: "pending"\<close>.  None of the characters
  of its two literal parts is a regular-expression metacharacter, so they match
  themselves: \<open>id_lit n\<close> opens group 1 and \<open>pending_lit\<close> follows the group.
\<close>

definition id_lit :: "nat \<Rightarrow> string" where
  \<open>id_lit n = ''- task_id: "'' @ task_id n @ ''"''\<close>

definition pending_lit :: string where
  \<open>pending_lit = ''status: "pending"''\<close>

text \<open>
  The replacement template is \<^verbatim>\<open>\1status: "completed"\n      completed_date: "2025-11-05"\<close>;
  \<open>completed_lit\<close> is what follows the group reference, the escape \<^verbatim>\<open>\n\<close> expanded
  to a newline.
\<close>

definition completed_lit :: string where
  \<open>completed_lit = ''status: "completed"'' @ [nl] @ ''      completed_date: "2025-11-05"''\<close>

section \<open>The regular-expression substitution\<close>

text \<open>
  \<open>lazy_until lit s\<close> is the match of \<^verbatim>\<open>.*?\<close> followed by the literal \<open>lit\<close> at the
  start of \<open>s\<close>, under \<^verbatim>\<open>re.DOTALL\<close> (the dot matches every character, newlines too):
  the lazy star takes as few characters as possible, so the literal is matched at its
  first occurrence.  The result is the text consumed by the star and the text left after
  the literal; \<open>None\<close> when the literal does not occur.
\<close>

fun lazy_until :: "string \<Rightarrow> string \<Rightarrow> (string \<times> string) option" where
  "lazy_until lit [] = (if lit = [] then Some ([], []) else None)"
| "lazy_until lit (c # cs) =
     (if prefix lit (c # cs) then Some ([], drop (length lit) (c # cs))
      else (case lazy_until lit cs of
              None \<Rightarrow> None
            | Some (skipped, rest) \<Rightarrow> Some (c # skipped, rest)))"

text \<open>
  A match of the whole pattern beginning exactly at the start of \<open>s\<close>, for the pattern
  whose group opens with the literal \<open>idl\<close>: the text of group 1 and the text after the
  match.
\<close>

definition match_at :: "string \<Rightarrow> string \<Rightarrow> (string \<times> string) option" where
  "match_at idl s =
     (if prefix idl s
      then (case lazy_until pending_lit (drop (length idl) s) of
              None \<Rightarrow> None
            | Some (skipped, rest) \<Rightarrow> Some (idl @ skipped, rest))
      else None)"

text \<open>
  \<^verbatim>\<open>re.sub(pattern, replacement, content, flags=re.DOTALL)\<close> with the default
  \<^verbatim>\<open>count=0\<close>: the text is scanned from left to right; where the pattern matches, the
  match is replaced by the expanded template (group 1, then \<open>completed_lit\<close>) and the scan
  goes on after the match; where it does not, the character is copied.  Every
  non-overlapping match is replaced.
\<close>

function re_sub :: "string \<Rightarrow> string \<Rightarrow> string" where
  "re_sub idl [] = []"
| "re_sub idl (c # cs) =
     (case match_at idl (c # cs) of
        Some (grp, rest) \<Rightarrow> grp @ completed_lit @ re_sub idl rest
      | None \<Rightarrow> c # re_sub idl cs)"
  by pat_completeness auto

termination
proof (relation "measure (\<lambda>(idl, s). length s)")
  show "wf (measure (\<lambda>(idl :: string, s :: string). length s))"
    by simp
next
  fix idl :: string and c :: char and cs grp rest :: string and m :: "string \<times> string"
  assume m: "match_at idl (c # cs) = Some m" and gr: "(grp, rest) = m"
  have shorter: "length r < length s"
    if "lazy_until pending_lit s = Some (k, r)" for s k r
    using that
  proof (induction s arbitrary: k)
    case Nil
    then show ?case by (simp add: pending_lit_def)
  next
    case (Cons d ds)
    show ?case
    proof (cases "prefix pending_lit (d # ds)")
      case True
      with Cons.prems show ?thesis by (auto simp: pending_lit_def)
    next
      case False
      with Cons.prems obtain k' where "lazy_until pending_lit ds = Some (k', r)"
        by (auto split: option.splits)
      from Cons.IH [OF this] show ?thesis by simp
    qed
  qed
  from m gr obtain k where "lazy_until pending_lit (drop (length idl) (c # cs)) = Some (k, rest)"
    by (auto simp: match_at_def split: if_splits option.splits)
  from shorter [OF this] have "length rest < length (c # cs)"
    by simp
  then show "((idl, rest), (idl, c # cs)) \<in> measure (\<lambda>(idl, s). length s)"
    by simp
next
  fix idl :: string and c :: char and cs :: string
  show "((idl, cs), (idl, c # cs)) \<in> measure (\<lambda>(idl, s). length s)"
    by simp
qed

declare re_sub.simps(2) [simp del]

section \<open>The script\<close>

text \<open>\<^verbatim>\<open>completed_tasks = list(range(1, 31))\<close>\<close>

definition completed_tasks :: "nat list" where
  "completed_tasks = [1..<31]"

text \<open>
  One iteration of the loop for \<open>task_num\<close>: the pattern is built from the task number
  and substituted in \<open>content\<close>, which is rebound to the result.
\<close>

definition update_task :: "nat \<Rightarrow> string \<Rightarrow> string" where
  "update_task task_num content = re_sub (id_lit task_num) content"

text \<open>The loop over \<open>completed_tasks\<close>.\<close>

definition update_content :: "string \<Rightarrow> string" where
  "update_content content = fold update_task completed_tasks content"

section \<open>The file\<close>

text \<open>
  \<^verbatim>\<open>Path.read_text()\<close> and \<^verbatim>\<open>Path.write_text()\<close> are called without an encoding, so
  both open the file in text mode with the preferred encoding of the locale, which the
  interpreter derives from the environment of the process, and with universal newlines.
  A \<^typ>\<open>char\<close> is a byte and the file is a list of bytes.

  Three encodings are modelled: ASCII, Latin-1 and UTF-8.  In all three a byte below
  \<open>0x80\<close> is the character of that code and no such byte is part of another character.
  A text is held as its code units in the encoding of the run (for UTF-8 its bytes): the
  literals of the pattern and of the replacement are ASCII, and a lazy \<^verbatim>\<open>.*?\<close> under
  \<^verbatim>\<open>re.DOTALL\<close> followed by a literal ends at the first occurrence of the literal, counted
  in characters or in code units alike.  So decoding checks the bytes and hands them over,
  and fails on bytes that are not well-formed in the encoding.
\<close>

datatype encoding = Ascii | Latin1 | Utf8

definition byte :: "char \<Rightarrow> nat" where
  "byte c = of_char c"

definition continuation :: "char \<Rightarrow> bool" where
  "continuation c \<longleftrightarrow> 0x80 \<le> byte c \<and> byte c \<le> 0xBF"

text \<open>
  Well-formed UTF-8: one byte below \<open>0x80\<close>; a lead byte \<open>C2..DF\<close> and one continuation
  byte; a lead byte \<open>E0..EF\<close> and two (the first in \<open>A0..BF\<close> after \<open>E0\<close>, which excludes
  overlong forms, and in \<open>80..9F\<close> after \<open>ED\<close>, which excludes surrogates); a lead byte
  \<open>F0..F4\<close> and three (the first in \<open>90..BF\<close> after \<open>F0\<close> and in \<open>80..8F\<close> after \<open>F4\<close>).
\<close>

fun utf8_ok :: "string \<Rightarrow> bool" where
  "utf8_ok [] = True"
| "utf8_ok (c # cs) =
     (if byte c < 0x80 then utf8_ok cs
      else if 0xC2 \<le> byte c \<and> byte c \<le> 0xDF then
        (case cs of
           c1 # r \<Rightarrow> continuation c1 \<and> utf8_ok r
         | _ \<Rightarrow> False)
      else if 0xE0 \<le> byte c \<and> byte c \<le> 0xEF then
        (case cs of
           c1 # c2 # r \<Rightarrow>
             (if byte c = 0xE0 then 0xA0 \<le> byte c1 \<and> byte c1 \<le> 0xBF
              else if byte c = 0xED then 0x80 \<le> byte c1 \<and> byte c1 \<le> 0x9F
              else continuation c1) \<and>
             continuation c2 \<and> utf8_ok r
         | _ \<Rightarrow> False)
      else if 0xF0 \<le> byte c \<and> byte c \<le> 0xF4 then
        (case cs of
           c1 # c2 # c3 # r \<Rightarrow>
             (if byte c = 0xF0 then 0x90 \<le> byte c1 \<and> byte c1 \<le> 0xBF
              else if byte c = 0xF4 then 0x80 \<le> byte c1 \<and> byte c1 \<le> 0x8F
              else continuation c1) \<and>
             continuation c2 \<and> continuation c3 \<and> utf8_ok r
         | _ \<Rightarrow> False)
      else False)"

fun well_encoded :: "encoding \<Rightarrow> string \<Rightarrow> bool" where
  "well_encoded Ascii s = list_all (\<lambda>c. byte c < 0x80) s"
| "well_encoded Latin1 s = True"
| "well_encoded Utf8 s = utf8_ok s"

text \<open>With the error handler \<^verbatim>\<open>strict\<close>, the default, both directions fail on the first error.\<close>

definition decode :: "encoding \<Rightarrow> string \<Rightarrow> string option" where
  "decode e bytes = (if well_encoded e bytes then Some bytes else None)"

definition encode :: "encoding \<Rightarrow> string \<Rightarrow> string option" where
  "encode e text = (if well_encoded e text then Some text else None)"

text \<open>
  Universal newlines.  On input \<^verbatim>\<open>\r\n\<close> and a lone \<^verbatim>\<open>\r\<close> are both read as \<^verbatim>\<open>\n\<close>; on
  output every \<^verbatim>\<open>\n\<close> is written as \<^verbatim>\<open>os.linesep\<close>.
\<close>

definition cr :: char where
  "cr = CHR 0x0D"

fun universal_newlines :: "string \<Rightarrow> string" where
  "universal_newlines [] = []"
| "universal_newlines [c] = [if c = cr then nl else c]"
| "universal_newlines (c # d # cs) =
     (if c = cr \<and> d = nl then nl # universal_newlines cs
      else if c = cr then nl # universal_newlines (d # cs)
      else c # universal_newlines (d # cs))"

datatype os = Posix | Windows

fun linesep :: "os \<Rightarrow> string" where
  "linesep Posix = [nl]"
| "linesep Windows = [cr, nl]"

definition write_newlines :: "string \<Rightarrow> string \<Rightarrow> string" where
  "write_newlines sep text = concat (map (\<lambda>c. if c = nl then sep else [c]) text)"

text \<open>
  The world the script runs in: the bytes of the task plan file (\<open>None\<close> when it is missing
  or cannot be read), whether it can be written, the clock, the environment variables, the
  rule by which the interpreter on this system derives the preferred encoding from the
  environment (\<^verbatim>\<open>locale.getpreferredencoding(False)\<close>), the operating system, and the
  effects so far, in order.  The script never consults the clock.
\<close>

datatype error = ReadError | DecodeError | WriteError | EncodeError

datatype effect = Read | Write string | Print string

record world =
  file_content :: "string option"
  file_writable :: bool
  current_date :: string
  environment :: "string \<Rightarrow> string option"
  preferred_encoding :: "(string \<Rightarrow> string option) \<Rightarrow> encoding"
  platform :: os
  effects :: "effect list"

definition locale_encoding :: "world \<Rightarrow> encoding" where
  "locale_encoding w = preferred_encoding w (environment w)"

text \<open>\<^verbatim>\<open>content = task_plan_path.read_text()\<close>\<close>

definition read_text :: "world \<Rightarrow> error + string \<times> world" where
  "read_text w =
     (case file_content w of
        None \<Rightarrow> Inl ReadError
      | Some bytes \<Rightarrow>
          (case decode (locale_encoding w) bytes of
             None \<Rightarrow> Inl DecodeError
           | Some text \<Rightarrow> Inr (universal_newlines text, w\<lparr>effects := effects w @ [Read]\<rparr>)))"

text \<open>
  \<^verbatim>\<open>task_plan_path.write_text(content)\<close>.  The file is opened for writing, which empties
  it, before the text is encoded; the effect \<open>Write\<close> carries the bytes written.
\<close>

definition write_text :: "string \<Rightarrow> world \<Rightarrow> error \<times> world + world" where
  "write_text text w =
     (if file_writable w
      then (case encode (locale_encoding w) (write_newlines (linesep (platform w)) text) of
              None \<Rightarrow> Inl (EncodeError, w\<lparr>file_content := Some []\<rparr>)
            | Some bytes \<Rightarrow>
                Inr (w\<lparr>file_content := Some bytes, effects := effects w @ [Write bytes]\<rparr>))
      else Inl (WriteError, w))"

definition print_line :: "string \<Rightarrow> world \<Rightarrow> world" where
  "print_line line w = w\<lparr>effects := effects w @ [Print line]\<rparr>"

text \<open>\<^verbatim>\<open>f"Updated {len(completed_tasks)} tasks to completed status"\<close>\<close>

definition report :: string where
  "report = ''Updated '' @ decimal (length completed_tasks) @ '' tasks to completed status''"

text \<open>
  The module body.  An exception of \<^verbatim>\<open>read_text\<close> or \<^verbatim>\<open>write_text\<close> is not caught: it
  ends the run at that statement.  The result is the uncaught error, if any, and the world
  the run leaves behind.
\<close>

definition main :: "world \<Rightarrow> error option \<times> world" where
  "main w =
     (case read_text w of
        Inl e \<Rightarrow> (Some e, w)
      | Inr (content, w1) \<Rightarrow>
          (case write_text (update_content content) w1 of
             Inl (e, w2) \<Rightarrow> (Some e, w2)
           | Inr w2 \<Rightarrow> (None, print_line report w2)))"

section \<open>Example documents and worlds\<close>

text \<open>
  A record as the task plan lists it: the identifier line, then the status field on a line
  of its own, indented by six spaces.  A \<open>pending_record\<close> is what the script looks for, a
  \<open>completed_record\<close> is what it leaves, and a \<open>done_record\<close> is a record that was
  completed before the script ran.
\<close>

definition pending_record :: "nat \<Rightarrow> string" where
  "pending_record n = id_lit n @ [nl] @ ''      '' @ pending_lit @ [nl]"

definition completed_record :: "nat \<Rightarrow> string" where
  "completed_record n = id_lit n @ [nl] @ ''      '' @ completed_lit @ [nl]"

definition done_record :: "nat \<Rightarrow> string" where
  \<open>done_record n = id_lit n @ [nl] @ ''      status: "completed"'' @ [nl]\<close>

text \<open>
  The rule of Python 3.7 and later on a POSIX system whose locale is the C locale: UTF-8,
  unless the variable \<^verbatim>\<open>PYTHONUTF8\<close> is set to \<^verbatim>\<open>0\<close>, and then ASCII.
\<close>

definition c_locale_rule :: "(string \<Rightarrow> string option) \<Rightarrow> encoding" where
  "c_locale_rule env = (if env ''PYTHONUTF8'' = Some ''0'' then Ascii else Utf8)"

text \<open>A world on such a system with a writable task plan, nothing done yet.\<close>

definition example_world :: "string option \<Rightarrow> string \<Rightarrow> world" where
  "example_world file today =
     \<lparr>file_content = file, file_writable = True, current_date = today,
      environment = (\<lambda>name. None), preferred_encoding = c_locale_rule, platform = Posix,
      effects = []\<rparr>"

text \<open>Two environments: one switches the UTF-8 mode off, the other sets an unrelated variable.\<close>

definition utf8_mode_off :: "string \<Rightarrow> string option" where
  "utf8_mode_off name = (if name = ''PYTHONUTF8'' then Some ''0'' else None)"

definition home_set :: "string \<Rightarrow> string option" where
  "home_set name = (if name = ''HOME'' then Some ''/home/user'' else None)"

text \<open>A comment line with a letter outside ASCII, \<open>e\<close> with an acute accent, in UTF-8.\<close>

definition accented_comment :: string where
  "accented_comment = ''# caf'' @ [CHR 0xC3, CHR 0xA9] @ [nl]"

text \<open>
  A document on which the order of the loop shows: the identifier of task 1, a line end
  as Windows writes it, the identifier of task 2, a pending status, the identifier of
  task 1 again and two pending statuses.
\<close>

definition ordered_document :: string where
  "ordered_document =
     id_lit 1 @ [cr, nl] @ id_lit 2 @ pending_lit @ id_lit 1 @ pending_lit @ pending_lit"

section \<open>Counting occurrences\<close>

text \<open>The number of positions of \<open>s\<close> at which the literal \<open>lit\<close> occurs.\<close>

fun occurrences :: "string \<Rightarrow> string \<Rightarrow> nat" where
  "occurrences lit [] = 0"
| "occurrences lit (c # cs) = (if prefix lit (c # cs) then 1 else 0) + occurrences lit cs"

section \<open>Notions for reasoning about a whole pass\<close>

text \<open>
  The substitution scans the text in one of two states: looking for the identifier literal,
  which is \<open>re_sub\<close> itself, or, the identifier found, looking for the pending status that
  closes the match.  \<open>resume idl s\<close> is the scan of \<open>s\<close> continued in the second state.
\<close>

definition resume :: "string \<Rightarrow> string \<Rightarrow> string" where
  "resume idl s =
     (case lazy_until pending_lit s of
        None \<Rightarrow> s
      | Some (g, b) \<Rightarrow> g @ completed_lit @ re_sub idl b)"

text \<open>
  \<open>confined lit x z\<close>: in the text \<open>x @ z\<close> no occurrence of \<open>lit\<close> that begins in \<open>x\<close>
  runs over into \<open>z\<close>.
\<close>

definition confined :: "string \<Rightarrow> string \<Rightarrow> string \<Rightarrow> bool" where
  "confined lit x z \<longleftrightarrow> (\<forall>u. u \<noteq> [] \<and> suffix u x \<and> prefix lit (u @ z) \<longrightarrow> prefix lit u)"

text \<open>
  \<open>completes s t\<close>: the text \<open>t\<close> is the text \<open>s\<close> with some of its pending statuses replaced
  by the completed status and its date line, and is otherwise the same.
\<close>

inductive completes :: "string \<Rightarrow> string \<Rightarrow> bool" where
  same: "completes s s"
| one: "completes (x @ pending_lit @ y) (x @ completed_lit @ y)"
| more: "completes s t \<Longrightarrow> completes t u \<Longrightarrow> completes s u"



section \<open>The substitution, characterised\<close>

lemma pending_lit_nonempty: "pending_lit \<noteq> []"
  by (simp add: pending_lit_def)

lemma lazy_until_prefix:
  "prefix lit s \<Longrightarrow> lazy_until lit s = Some ([], drop (length lit) s)"
  by (cases s) auto

lemma lazy_until_Some:
  "lazy_until lit s = Some (k, r) \<Longrightarrow> s = k @ lit @ r"
proof (induction s arbitrary: k)
  case Nil
  then show ?case by (simp split: if_splits)
next
  case (Cons c cs)
  show ?case
  proof (cases "prefix lit (c # cs)")
    case True
    with Cons.prems have "k = []" "r = drop (length lit) (c # cs)"
      by simp_all
    moreover from True obtain zs where "c # cs = lit @ zs"
      by (auto simp: prefix_def)
    ultimately show ?thesis by simp
  next
    case False
    with Cons.prems obtain k' where k': "lazy_until lit cs = Some (k', r)" "k = c # k'"
      by (auto split: option.splits)
    from Cons.IH [OF k'(1)] k'(2) show ?thesis by simp
  qed
qed

lemma lazy_until_None_iff:
  "lazy_until lit s = None \<longleftrightarrow> \<not> sublist lit s"
proof (induction s)
  case Nil
  then show ?case by simp
next
  case (Cons c cs)
  then show ?case
    by (auto simp: sublist_Cons_right split: option.splits)
qed

lemma lazy_until_first:
  "lazy_until lit (x @ lit @ y) = Some (k, r) \<Longrightarrow> length k \<le> length x"
proof (induction x arbitrary: k)
  case Nil
  have "lazy_until lit (lit @ y) = Some ([], drop (length lit) (lit @ y))"
    by (rule lazy_until_prefix) simp
  with Nil show ?case by simp
next
  case (Cons c x)
  show ?case
  proof (cases "prefix lit (c # x @ lit @ y)")
    case True
    with Cons.prems show ?thesis by simp
  next
    case False
    with Cons.prems obtain k' where k': "lazy_until lit (x @ lit @ y) = Some (k', r)" "k = c # k'"
      by (auto split: option.splits)
    from Cons.IH [OF k'(1)] k'(2) show ?thesis by simp
  qed
qed

lemma lazy_until_occurs:
  "\<exists>k r. lazy_until lit (x @ lit @ y) = Some (k, r)"
  using lazy_until_None_iff [of lit "x @ lit @ y"] by (cases "lazy_until lit (x @ lit @ y)") auto

lemma re_sub_no_id:
  "\<not> sublist idl s \<Longrightarrow> re_sub idl s = s"
proof (induction s)
  case Nil
  show ?case by simp
next
  case (Cons c cs)
  from Cons.prems have "\<not> prefix idl (c # cs)" "\<not> sublist idl cs"
    by (auto simp: sublist_Cons_right)
  with Cons.IH show ?case
    by (simp add: re_sub.simps(2) match_at_def)
qed

lemma re_sub_no_pending:
  "\<not> sublist pending_lit (drop (length idl) s) \<Longrightarrow> re_sub idl s = s"
proof (induction s)
  case Nil
  show ?case by simp
next
  case (Cons c cs)
  have "drop (length idl) cs = tl (drop (length idl) (c # cs))"
    by (simp add: tl_drop)
  then have "sublist (drop (length idl) cs) (drop (length idl) (c # cs))"
    by (metis sublist_tl)
  with Cons.prems have "\<not> sublist pending_lit (drop (length idl) cs)"
    using sublist_order.order.trans by blast
  from Cons.IH [OF this] have "re_sub idl cs = cs" .
  moreover from Cons.prems have "match_at idl (c # cs) = None"
    using lazy_until_None_iff [of pending_lit "drop (length idl) (c # cs)"]
    by (simp add: match_at_def)
  ultimately show ?case
    by (simp add: re_sub.simps(2))
qed

lemma re_sub_skip:
  "lazy_until idl s = Some (a, r) \<Longrightarrow> re_sub idl s = a @ re_sub idl (idl @ r)"
proof (induction s arbitrary: a)
  case Nil
  then show ?case by (simp split: if_splits)
next
  case (Cons c cs)
  show ?case
  proof (cases "prefix idl (c # cs)")
    case True
    with Cons.prems have "a = []" "r = drop (length idl) (c # cs)"
      by simp_all
    moreover from True have "idl @ drop (length idl) (c # cs) = c # cs"
      by (metis append_eq_conv_conj prefix_def)
    ultimately show ?thesis by simp
  next
    case False
    with Cons.prems obtain a' where a': "lazy_until idl cs = Some (a', r)" "a = c # a'"
      by (auto split: option.splits)
    from False have "match_at idl (c # cs) = None"
      by (simp add: match_at_def)
    with Cons.IH [OF a'(1)] a'(2) show ?thesis
      by (simp add: re_sub.simps(2))
  qed
qed

lemma re_sub_at_id:
  assumes "lazy_until pending_lit r = Some (g, b)"
  shows "re_sub idl (idl @ r) = idl @ g @ completed_lit @ re_sub idl b"
proof -
  from assms have "r \<noteq> []"
    by (auto simp: pending_lit_nonempty)
  then obtain c cs where cs: "idl @ r = c # cs"
    by (cases "idl @ r") auto
  have "match_at idl (idl @ r) = Some (idl @ g, b)"
    using assms by (simp add: match_at_def)
  then show ?thesis
    unfolding cs by (simp add: re_sub.simps(2))
qed

lemma re_sub_unfold:
  "re_sub idl s =
     (case lazy_until idl s of
        None \<Rightarrow> s
      | Some (a, r) \<Rightarrow>
          (case lazy_until pending_lit r of
             None \<Rightarrow> s
           | Some (g, b) \<Rightarrow> a @ idl @ g @ completed_lit @ re_sub idl b))"
proof (cases "lazy_until idl s")
  case None
  then have "\<not> sublist idl s"
    by (simp add: lazy_until_None_iff)
  then have "re_sub idl s = s"
    by (rule re_sub_no_id)
  with None show ?thesis by simp
next
  case (Some p)
  obtain a r where p: "p = (a, r)"
    by (cases p)
  from Some p have s: "s = a @ idl @ r"
    by (auto dest: lazy_until_Some)
  from Some p have skip: "re_sub idl s = a @ re_sub idl (idl @ r)"
    by (auto dest: re_sub_skip)
  show ?thesis
  proof (cases "lazy_until pending_lit r")
    case None
    then have "re_sub idl (idl @ r) = idl @ r"
      using re_sub_no_pending [of idl "idl @ r"] by (simp add: lazy_until_None_iff)
    with skip s Some p None show ?thesis by simp
  next
    case (Some q)
    obtain g b where q: "q = (g, b)"
      by (cases q)
    from re_sub_at_id [of r g b idl] Some q skip \<open>lazy_until idl s = Some p\<close> p
    show ?thesis by simp
  qed
qed

lemma match_iff:
  "(\<exists>a g b. s = a @ idl @ g @ pending_lit @ b) \<longleftrightarrow>
   (\<exists>a r g b. lazy_until idl s = Some (a, r) \<and> lazy_until pending_lit r = Some (g, b))"
proof
  assume "\<exists>a g b. s = a @ idl @ g @ pending_lit @ b"
  then obtain a g b where s: "s = a @ idl @ g @ pending_lit @ b"
    by blast
  obtain a' r' where a': "lazy_until idl s = Some (a', r')"
    using lazy_until_occurs [of idl a "g @ pending_lit @ b"] s by auto
  then have s': "s = a' @ idl @ r'"
    by (rule lazy_until_Some)
  from a' s have le: "length a' \<le> length a"
    using lazy_until_first [of idl a "g @ pending_lit @ b" a' r'] by simp
  have "r' = drop (length a' + length idl) s"
    using s' by simp
  moreover have "g @ pending_lit @ b = drop (length a + length idl) s"
    using s by simp
  ultimately have "g @ pending_lit @ b = drop (length a - length a') r'"
    using le by simp
  then have "r' = take (length a - length a') r' @ g @ pending_lit @ b"
    by simp
  then obtain x where "r' = x @ pending_lit @ (g @ pending_lit @ b) \<or> r' = x @ g @ pending_lit @ b"
    by blast
  then have "sublist pending_lit r'"
    by (metis \<open>r' = take (length a - length a') r' @ g @ pending_lit @ b\<close> append.assoc sublist_appendI)
  then obtain g' b' where "lazy_until pending_lit r' = Some (g', b')"
    using lazy_until_None_iff [of pending_lit r'] by (cases "lazy_until pending_lit r'") auto
  with a' show "\<exists>a r g b. lazy_until idl s = Some (a, r) \<and> lazy_until pending_lit r = Some (g, b)"
    by blast
next
  assume "\<exists>a r g b. lazy_until idl s = Some (a, r) \<and> lazy_until pending_lit r = Some (g, b)"
  then obtain a r g b where "lazy_until idl s = Some (a, r)" "lazy_until pending_lit r = Some (g, b)"
    by blast
  then have "s = a @ idl @ r" "r = g @ pending_lit @ b"
    by (auto dest: lazy_until_Some)
  then show "\<exists>a g b. s = a @ idl @ g @ pending_lit @ b"
    by blast
qed

lemma completed_neq_pending: "completed_lit @ x \<noteq> pending_lit @ y"
  by (simp add: completed_lit_def pending_lit_def)

lemma re_sub_changes_iff:
  "re_sub idl s \<noteq> s \<longleftrightarrow> (\<exists>a g b. s = a @ idl @ g @ pending_lit @ b)"
proof
  assume "re_sub idl s \<noteq> s"
  then show "\<exists>a g b. s = a @ idl @ g @ pending_lit @ b"
    unfolding match_iff
    by (subst (asm) re_sub_unfold) (auto split: option.splits)
next
  assume "\<exists>a g b. s = a @ idl @ g @ pending_lit @ b"
  then obtain a r g b where *: "lazy_until idl s = Some (a, r)" "lazy_until pending_lit r = Some (g, b)"
    unfolding match_iff by blast
  then have "s = a @ idl @ g @ pending_lit @ b"
    by (auto dest: lazy_until_Some)
  moreover from * have "re_sub idl s = a @ idl @ g @ completed_lit @ re_sub idl b"
    by (subst re_sub_unfold) simp
  ultimately show "re_sub idl s \<noteq> s"
    using completed_neq_pending by auto
qed

lemma no_match_iff:
  "(\<nexists>a g b. s = a @ idl @ g @ pending_lit @ b) \<longleftrightarrow>
   (case lazy_until idl s of
      None \<Rightarrow> True
    | Some (a, r) \<Rightarrow> lazy_until pending_lit r = None)"
proof (cases "lazy_until idl s")
  case None
  then show ?thesis
    unfolding match_iff by simp
next
  case (Some p)
  obtain a r where p: "p = (a, r)"
    by (cases p)
  show ?thesis
    unfolding match_iff using Some p by (cases "lazy_until pending_lit r") auto
qed

lemma fold_unchanged:
  "(\<And>x. x \<in> set xs \<Longrightarrow> f x s = s) \<Longrightarrow> fold f xs s = s"
  by (induction xs) simp_all

section \<open>One substitution step\<close>

text \<open>
  C4, as stated, fails.  With two pending records of the same identifier in the document,
  the step for that identifier rewrites both, not only the first.
\<close>

theorem later_match_also_replaced:
  "update_task 1 (pending_record 1 @ pending_record 1) = completed_record 1 @ completed_record 1 \<and>
   update_task 1 (pending_record 1 @ pending_record 1) \<noteq> completed_record 1 @ pending_record 1"
  by code_simp

text \<open>
  C4, amended.  The step replaces every match, from left to right: when the identifier
  literal first occurs after \<open>a\<close> and the first pending status after it comes after \<open>g\<close>,
  that status is replaced, the text up to it is kept, and the step is applied again to the
  text \<open>b\<close> that follows the match.
\<close>

theorem update_task_replaces_every_match:
  assumes "lazy_until (id_lit n) s = Some (a, r)"
    and "lazy_until pending_lit r = Some (g, b)"
  shows "update_task n s = a @ id_lit n @ g @ completed_lit @ update_task n b"
  unfolding update_task_def using assms by (subst re_sub_unfold) simp

theorem update_task_replaces_every_match_witness:
  "update_task 1 (pending_record 1 @ pending_record 1) =
     id_lit 1 @ ([nl] @ ''      '') @ completed_lit @ update_task 1 ([nl] @ pending_record 1)"
proof -
  have h1: "lazy_until (id_lit 1) (pending_record 1 @ pending_record 1) =
      Some ([], [nl] @ ''      '' @ pending_lit @ [nl] @ pending_record 1)"
    by code_simp
  have h2: "lazy_until pending_lit ([nl] @ ''      '' @ pending_lit @ [nl] @ pending_record 1) =
      Some ([nl] @ ''      '', [nl] @ pending_record 1)"
    by code_simp
  from update_task_replaces_every_match [OF h1 h2] show ?thesis
    by simp
qed

text \<open>
  The pass leaves a document as it is when no identifier literal of the range is followed,
  anywhere later in the document, by a pending status; a single step changes the document
  exactly when its own identifier literal is followed by one.
\<close>

lemma unchanged_iff_no_match:
  "(update_task n s = s \<longleftrightarrow> (\<nexists>a g b. s = a @ id_lit n @ g @ pending_lit @ b)) \<and>
   ((\<forall>n \<in> set completed_tasks. \<nexists>a g b. s = a @ id_lit n @ g @ pending_lit @ b) \<longrightarrow>
      update_content s = s)"
proof
  show "update_task n s = s \<longleftrightarrow> (\<nexists>a g b. s = a @ id_lit n @ g @ pending_lit @ b)"
    unfolding update_task_def using re_sub_changes_iff [of "id_lit n" s] by blast
next
  show "(\<forall>n \<in> set completed_tasks. \<nexists>a g b. s = a @ id_lit n @ g @ pending_lit @ b) \<longrightarrow>
      update_content s = s"
  proof
    assume none: "\<forall>n \<in> set completed_tasks. \<nexists>a g b. s = a @ id_lit n @ g @ pending_lit @ b"
    have "update_task n s = s" if "n \<in> set completed_tasks" for n
      unfolding update_task_def using re_sub_changes_iff [of "id_lit n" s] none that by blast
    then show "update_content s = s"
      unfolding update_content_def by (rule fold_unchanged)
  qed
qed

text \<open>
  C2 does not hold of the code.  The lazy match runs on past the record of its identifier:
  when TASK-010 is already completed and the record after it, TASK-031, is pending, the
  step for TASK-010 rewrites the status of TASK-031, a record outside the range, which the
  range of the script (\<^verbatim>\<open># TASK-001 to TASK-030\<close>) was to leave alone.
\<close>

theorem out_of_range_record_rewritten:
  "update_content (done_record 10 @ pending_record 31) = done_record 10 @ completed_record 31 \<and>
   completed_record 31 \<noteq> pending_record 31"
  by code_simp

section \<open>Pending statuses never increase\<close>

text \<open>
  An occurrence of the pending literal that begins before a status literal (pending or
  completed) ends before it: the literal has no proper suffix that a status literal could
  continue.
\<close>

lemma pending_no_straddle:
  assumes "prefix pending_lit (u @ T @ y)" and "T = pending_lit \<or> T = completed_lit"
    and "u \<noteq> []"
  shows "prefix pending_lit u"
proof -
  from assms(1) consider "prefix pending_lit u"
    | us where "pending_lit = u @ us" "prefix us (T @ y)" "us \<noteq> []"
    unfolding prefix_append by (metis append.right_neutral prefix_order.refl)
  then show ?thesis
  proof cases
    case 1
    then show ?thesis .
  next
    case 2
    with assms(2,3) have False
      by (auto simp: pending_lit_def completed_lit_def Cons_eq_append_conv)
    then show ?thesis ..
  qed
qed

lemma occurrences_before_status:
  assumes "T = pending_lit \<or> T = completed_lit"
  shows "occurrences pending_lit (x @ T @ y) =
         occurrences pending_lit x + occurrences pending_lit (T @ y)"
proof (induction x)
  case Nil
  show ?case by simp
next
  case (Cons c x)
  have "prefix pending_lit ((c # x) @ T @ y) \<longleftrightarrow> prefix pending_lit (c # x)"
    using pending_no_straddle [of "c # x" T y] assms prefix_prefix by blast
  with Cons show ?case by simp
qed

lemma occurrences_pending_head:
  "occurrences pending_lit (pending_lit @ y) = Suc (occurrences pending_lit y)"
  by (simp add: pending_lit_def)

lemma occurrences_completed_head:
  "occurrences pending_lit (completed_lit @ y) = occurrences pending_lit y"
  by (simp add: pending_lit_def completed_lit_def nl_def)

lemma occurrences_replace:
  "occurrences pending_lit (x @ pending_lit @ y) =
     Suc (occurrences pending_lit x + occurrences pending_lit y)"
  "occurrences pending_lit (x @ completed_lit @ y) =
     occurrences pending_lit x + occurrences pending_lit y"
  by (simp_all add: occurrences_before_status occurrences_pending_head
      occurrences_completed_head)

lemma lazy_until_rest_shorter:
  "lazy_until lit s = Some (k, r) \<Longrightarrow> lit \<noteq> [] \<Longrightarrow> length r < length s"
  by (auto dest: lazy_until_Some)

lemma re_sub_count:
  "re_sub idl s = s \<or> occurrences pending_lit (re_sub idl s) < occurrences pending_lit s"
proof (induction s rule: length_induct)
  case (1 s)
  show ?case
  proof (cases "lazy_until idl s")
    case None
    then show ?thesis
      by (subst re_sub_unfold) simp
  next
    case (Some p)
    obtain a r where p: "p = (a, r)"
      by (cases p)
    show ?thesis
    proof (cases "lazy_until pending_lit r")
      case None
      with Some p show ?thesis
        by (subst re_sub_unfold) simp
    next
      case inner: (Some q)
      obtain g b where q: "q = (g, b)"
        by (cases q)
      from Some p inner q have s: "s = (a @ idl @ g) @ pending_lit @ b"
        by (auto dest: lazy_until_Some)
      then have "length b < length s"
        by (simp add: pending_lit_def)
      with 1 have "re_sub idl b = b \<or>
          occurrences pending_lit (re_sub idl b) < occurrences pending_lit b"
        by blast
      then have le: "occurrences pending_lit (re_sub idl b) \<le> occurrences pending_lit b"
        by auto
      from Some p inner q have "re_sub idl s = (a @ idl @ g) @ completed_lit @ re_sub idl b"
        by (subst re_sub_unfold) simp
      then have "occurrences pending_lit (re_sub idl s) =
          occurrences pending_lit (a @ idl @ g) + occurrences pending_lit (re_sub idl b)"
        by (simp only: occurrences_replace)
      moreover have "occurrences pending_lit s =
          Suc (occurrences pending_lit (a @ idl @ g) + occurrences pending_lit b)"
        by (subst s) (simp only: occurrences_replace)
      ultimately show ?thesis
        using le by simp
    qed
  qed
qed

lemma re_sub_count_le:
  "occurrences pending_lit (re_sub idl s) \<le> occurrences pending_lit s"
  using re_sub_count [of idl s] by auto

lemma fold_count_le:
  "occurrences pending_lit (fold update_task ns s) \<le> occurrences pending_lit s"
proof (induction ns arbitrary: s)
  case Nil
  show ?case by simp
next
  case (Cons n ns)
  have "occurrences pending_lit (fold update_task ns (update_task n s))
      \<le> occurrences pending_lit (update_task n s)"
    by (rule Cons.IH)
  also have "\<dots> \<le> occurrences pending_lit s"
    unfolding update_task_def by (rule re_sub_count_le)
  finally show ?case by simp
qed

lemma fold_count_same:
  assumes "occurrences pending_lit (fold update_task ns s) = occurrences pending_lit s"
    and "n \<in> set ns"
  shows "update_task n s = s"
  using assms
proof (induction ns arbitrary: s)
  case Nil
  then show ?case by simp
next
  case (Cons m ns)
  have "occurrences pending_lit (fold update_task ns (update_task m s))
      \<le> occurrences pending_lit (update_task m s)"
    by (rule fold_count_le)
  with Cons.prems(1) have "occurrences pending_lit s \<le> occurrences pending_lit (update_task m s)"
    by simp
  with re_sub_count [of "id_lit m" s] have m: "update_task m s = s"
    by (auto simp: update_task_def)
  show ?case
  proof (cases "n = m")
    case True
    with m show ?thesis by simp
  next
    case False
    with Cons.prems(2) have "n \<in> set ns"
      by simp
    moreover from Cons.prems(1) m
    have "occurrences pending_lit (fold update_task ns s) = occurrences pending_lit s"
      by simp
    ultimately show ?thesis
      by (rule Cons.IH [rotated])
  qed
qed

text \<open>
  C10.  Replacing a pending status by the replacement text removes one occurrence of the
  pending literal and brings none in; so one iteration of the loop never increases the
  number of occurrences, and neither does the whole pass.
\<close>

theorem pending_count_never_increases:
  "occurrences pending_lit (x @ pending_lit @ y) =
     Suc (occurrences pending_lit (x @ completed_lit @ y)) \<and>
   occurrences pending_lit (update_task n s) \<le> occurrences pending_lit s \<and>
   occurrences pending_lit (update_content s) \<le> occurrences pending_lit s"
  by (simp add: occurrences_replace update_task_def re_sub_count_le update_content_def
      fold_count_le)

section \<open>Scanning a text in pieces\<close>

text \<open>The first occurrence of a literal in a text is also its first occurrence in any extension.\<close>

lemma lazy_until_append:
  "lazy_until lit s = Some (k, r) \<Longrightarrow> lazy_until lit (s @ t) = Some (k, r @ t)"
proof (induction s arbitrary: k)
  case Nil
  then show ?case
    by (cases t) (auto split: if_splits)
next
  case (Cons c cs)
  show ?case
  proof (cases "prefix lit (c # cs)")
    case True
    then have "prefix lit ((c # cs) @ t)"
      by (rule prefix_prefix)
    then have "lazy_until lit ((c # cs) @ t) = Some ([], drop (length lit) ((c # cs) @ t))"
      by (rule lazy_until_prefix)
    moreover from True have "length lit \<le> length (c # cs)"
      by (rule prefix_length_le)
    then have "drop (length lit) ((c # cs) @ t) = drop (length lit) (c # cs) @ t"
      by (metis drop_append diff_is_0_eq drop0)
    moreover from True Cons.prems have "k = []" "r = drop (length lit) (c # cs)"
      by simp_all
    ultimately show ?thesis
      by (simp only:)
  next
    case False
    with Cons.prems obtain k' where k': "lazy_until lit cs = Some (k', r)" "k = c # k'"
      by (auto split: option.splits)
    from k'(1) have "lazy_until lit (cs @ t) = Some (k', r @ t)"
      by (rule Cons.IH)
    moreover have "\<not> prefix lit ((c # cs) @ t)"
    proof
      assume "prefix lit ((c # cs) @ t)"
      then have "prefix lit (c # cs) \<or> (\<exists>us. lit = (c # cs) @ us)"
        unfolding prefix_append by blast
      with False obtain us where "lit = (c # cs) @ us"
        by blast
      then have "length cs < length lit"
        by simp
      moreover from k'(1) have "cs = k' @ lit @ r"
        by (rule lazy_until_Some)
      then have "length lit \<le> length cs"
        by (metis length_append le_add1 le_add2 le_trans)
      ultimately show False
        by simp
    qed
    ultimately show ?thesis
      using k'(2) by simp
  qed
qed

text \<open>
  Where the literal does not occur in \<open>x\<close> and no occurrence straddles the end of \<open>x\<close>, the
  search goes on in what follows.
\<close>

lemma lazy_until_append_right:
  assumes "lazy_until lit x = None" and "confined lit x z"
  shows "lazy_until lit (x @ z) = map_option (\<lambda>(k, r). (x @ k, r)) (lazy_until lit z)"
  using assms
proof (induction x)
  case Nil
  show ?case
    by (cases "lazy_until lit z") auto
next
  case (Cons c cs)
  from Cons.prems(1) have np: "\<not> prefix lit (c # cs)" and none: "lazy_until lit cs = None"
    by (auto split: if_splits option.splits)
  have "\<not> prefix lit ((c # cs) @ z)"
  proof
    assume "prefix lit ((c # cs) @ z)"
    with Cons.prems(2) have "prefix lit (c # cs)"
      unfolding confined_def by blast
    with np show False ..
  qed
  moreover have "confined lit cs z"
    using Cons.prems(2) unfolding confined_def by (meson suffix_ConsI)
  with none have "lazy_until lit (cs @ z) = map_option (\<lambda>(k, r). (cs @ k, r)) (lazy_until lit z)"
    by (rule Cons.IH)
  ultimately show ?case
    by (cases "lazy_until lit z") auto
qed

lemma confined_suffix:
  assumes "confined lit x z" and "suffix r x"
  shows "confined lit r z"
proof -
  have "suffix u x" if "suffix u r" for u
    using that assms(2) by (auto simp: suffix_def)
  with assms(1) show ?thesis
    unfolding confined_def by blast
qed

text \<open>
  A sufficient condition on characters: what follows begins with two characters that do not
  occur next to each other inside the literal, and the first of them is not the last
  character of the literal.
\<close>

lemma confined_by_chars:
  assumes "last lit \<noteq> t0" and "\<not> sublist [t0, t1] (tl lit)"
  shows "confined lit x (t0 # t1 # v)"
  unfolding confined_def
proof (intro allI impI, elim conjE)
  fix u :: string
  assume u: "u \<noteq> []" and p: "prefix lit (u @ t0 # t1 # v)"
  from p consider "prefix lit u" | us where "lit = u @ us" "prefix us (t0 # t1 # v)" "us \<noteq> []"
    unfolding prefix_append by (metis append.right_neutral prefix_order.refl)
  then show "prefix lit u"
  proof cases
    case 1
    then show ?thesis .
  next
    case 2
    from 2(2,3) consider "us = [t0]" | us' where "us = t0 # t1 # us'"
      by (cases us; cases "tl us") (auto simp: prefix_Cons)
    then have False
    proof cases
      case 1
      with 2(1) assms(1) show False
        by simp
    next
      case 2
      with \<open>lit = u @ us\<close> u have "tl lit = tl u @ [t0, t1] @ us'"
        by (cases u) simp_all
      then have "sublist [t0, t1] (tl lit)"
        unfolding sublist_def by blast
      with assms(2) show False ..
    qed
    then show ?thesis ..
  qed
qed

text \<open>
  A literal that begins with two characters not adjacent anywhere in \<open>T\<close>, the first of them
  not the last character of \<open>T\<close>, cannot begin inside \<open>T\<close>.
\<close>

lemma confined_inside:
  assumes "lit = p0 # p1 # lit'" and "T \<noteq> []" and "last T \<noteq> p0" and "\<not> sublist [p0, p1] T"
  shows "confined lit T z" and "lazy_until lit T = None"
proof -
  have no: "\<not> prefix lit (u @ w)" if u: "u \<noteq> []" "suffix u T" for u w
  proof
    assume p: "prefix lit (u @ w)"
    from u(2) obtain h where T: "T = h @ u"
      unfolding suffix_def by blast
    from u(1) obtain c u' where uc: "u = c # u'"
      by (cases u) auto
    with p assms(1) have c: "c = p0" and p': "prefix (p1 # lit') (u' @ w)"
      by simp_all
    show False
    proof (cases u')
      case Nil
      with T uc c have "last T = p0"
        by simp
      with assms(3) show False ..
    next
      case (Cons d u'')
      with p' have "d = p1"
        by simp
      with T uc c Cons have "T = h @ [p0, p1] @ u''"
        by simp
      then have "sublist [p0, p1] T"
        unfolding sublist_def by blast
      with assms(4) show False ..
    qed
  qed
  then show "confined lit T z"
    unfolding confined_def by blast
  have "\<not> sublist lit T"
  proof
    assume "sublist lit T"
    then obtain h r where "T = h @ lit @ r"
      unfolding sublist_def by blast
    then have "suffix (lit @ r) T" "lit @ r \<noteq> []"
      using assms(1) unfolding suffix_def by auto
    with no [of "lit @ r" "[]"] show False
      by simp
  qed
  then show "lazy_until lit T = None"
    by (simp add: lazy_until_None_iff)
qed

lemma lazy_until_skip:
  assumes "lit = p0 # p1 # lit'" and "T \<noteq> []" and "last T \<noteq> p0" and "\<not> sublist [p0, p1] T"
  shows "lazy_until lit (T @ z) = map_option (\<lambda>(k, r). (T @ k, r)) (lazy_until lit z)"
  using confined_inside(2) [OF assms] confined_inside(1) [OF assms]
  by (rule lazy_until_append_right)

section \<open>The literals do not overlap\<close>

text \<open>
  The pending status and the replacement text begin with \<open>st\<close>, an identifier literal with
  a dash and a space; all three end with a double quote.  Neither pair of characters occurs
  anywhere else in any of them.
\<close>

lemma pending_chars:
  "pending_lit = CHR ''s'' # CHR ''t'' # drop 2 pending_lit"
  "last pending_lit = CHR 0x22"
  "\<not> sublist ''st'' (tl pending_lit)"
  "\<not> sublist ''- '' pending_lit"
  by (simp_all add: pending_lit_def sublist_Cons_right)

lemma completed_chars:
  "completed_lit = CHR ''s'' # CHR ''t'' # drop 2 completed_lit"
  "last completed_lit = CHR 0x22"
  "\<not> sublist ''st'' (tl completed_lit)"
  "\<not> sublist ''- '' completed_lit"
  "\<not> prefix pending_lit (completed_lit @ w)"
  by (simp_all add: pending_lit_def completed_lit_def nl_def sublist_Cons_right)

lemma id_chars_range:
  "\<forall>n\<in>set completed_tasks.
     id_lit n = CHR ''-'' # CHR '' '' # drop 2 (id_lit n) \<and> last (id_lit n) = CHR 0x22 \<and>
     \<not> sublist ''st'' (id_lit n) \<and> \<not> sublist ''- '' (tl (id_lit n))"
  by code_simp

lemma id_chars:
  assumes "n \<in> set completed_tasks"
  shows "id_lit n = CHR ''-'' # CHR '' '' # drop 2 (id_lit n)"
    and "last (id_lit n) = CHR 0x22"
    and "\<not> sublist ''st'' (id_lit n)"
    and "\<not> sublist ''- '' (tl (id_lit n))"
  using id_chars_range assms by blast+

lemma status_cases:
  assumes "X = pending_lit \<or> X = completed_lit"
  shows "X = CHR ''s'' # CHR ''t'' # drop 2 X" and "last X = CHR 0x22"
    and "\<not> sublist ''st'' (tl X)" and "\<not> sublist ''- '' X" and "X \<noteq> []"
  using assms pending_chars completed_chars by (auto simp: pending_lit_def completed_lit_def)

text \<open>No occurrence of a literal runs over into a following status or identifier.\<close>

lemma confined_before:
  assumes "T = t0 # t1 # T'" and "last lit \<noteq> t0" and "\<not> sublist [t0, t1] (tl lit)"
  shows "confined lit x (T @ y)"
  unfolding assms(1) append_Cons by (rule confined_by_chars [OF assms(2,3)])

lemma not_sublist_tl:
  "\<not> sublist u s \<Longrightarrow> \<not> sublist u (tl s)"
  by (cases s) (auto simp: sublist_Cons_right)

lemma confined_pending_status:
  assumes "X = pending_lit \<or> X = completed_lit"
  shows "confined pending_lit x (X @ y)"
  using status_cases(1) [OF assms]
  by (rule confined_before) (simp_all add: pending_chars(2,3))

lemma confined_id_status:
  assumes "m \<in> set completed_tasks" and "X = pending_lit \<or> X = completed_lit"
  shows "confined (id_lit m) x (X @ y)"
  using status_cases(1) [OF assms(2)]
proof (rule confined_before)
  show "last (id_lit m) \<noteq> CHR ''s''"
    using id_chars(2) [OF assms(1)] by simp
  show "\<not> sublist ''st'' (tl (id_lit m))"
    using id_chars(3) [OF assms(1)] by (rule not_sublist_tl)
qed

lemma confined_pending_id:
  assumes "n \<in> set completed_tasks"
  shows "confined pending_lit x (id_lit n @ y)"
  using id_chars(1) [OF assms]
proof (rule confined_before)
  show "last pending_lit \<noteq> CHR ''-''"
    by (simp add: pending_chars(2))
  show "\<not> sublist ''- '' (tl pending_lit)"
    using pending_chars(4) by (rule not_sublist_tl)
qed

lemma confined_id_id:
  assumes "m \<in> set completed_tasks" and "n \<in> set completed_tasks"
  shows "confined (id_lit m) x (id_lit n @ y)"
  using id_chars(1) [OF assms(2)]
proof (rule confined_before)
  show "last (id_lit m) \<noteq> CHR ''-''"
    using id_chars(2) [OF assms(1)] by simp
  show "\<not> sublist ''- '' (tl (id_lit m))"
    by (rule id_chars(4) [OF assms(1)])
qed

text \<open>No literal begins inside another one.\<close>

lemma pending_skips_id:
  assumes "n \<in> set completed_tasks"
  shows "lazy_until pending_lit (id_lit n @ z) =
           map_option (\<lambda>(k, r). (id_lit n @ k, r)) (lazy_until pending_lit z)"
proof (rule lazy_until_skip)
  show "pending_lit = CHR ''s'' # CHR ''t'' # drop 2 pending_lit"
    by (rule pending_chars(1))
  show "id_lit n \<noteq> []"
    using id_chars(1) [OF assms] by auto
  show "last (id_lit n) \<noteq> CHR ''s''"
    using id_chars(2) [OF assms] by simp
  show "\<not> sublist ''st'' (id_lit n)"
    by (rule id_chars(3) [OF assms])
qed

lemma id_skips_status:
  assumes "m \<in> set completed_tasks" and "X = pending_lit \<or> X = completed_lit"
  shows "\<not> sublist (id_lit m) X" and "confined (id_lit m) X z"
proof -
  have 1: "id_lit m = CHR ''-'' # CHR '' '' # drop 2 (id_lit m)"
    by (rule id_chars(1) [OF assms(1)])
  have 2: "X \<noteq> []"
    by (rule status_cases(5) [OF assms(2)])
  have 3: "last X \<noteq> CHR ''-''"
    using status_cases(2) [OF assms(2)] by simp
  have 4: "\<not> sublist ''- '' X"
    by (rule status_cases(4) [OF assms(2)])
  from confined_inside(2) [OF 1 2 3 4] show "\<not> sublist (id_lit m) X"
    by (simp add: lazy_until_None_iff)
  from confined_inside(1) [OF 1 2 3 4] show "confined (id_lit m) X z" .
qed

lemma pending_in_completed:
  shows pending_not_in_completed: "\<not> sublist pending_lit completed_lit"
    and confined_pending_completed: "confined pending_lit completed_lit z"
proof -
  have no: "\<not> prefix pending_lit (u @ w)" if u: "u \<noteq> []" "suffix u completed_lit" for u w
  proof (cases "u = completed_lit")
    case True
    then show ?thesis
      by (simp add: completed_chars(5))
  next
    case False
    with u(2) have su: "suffix u (tl completed_lit)"
      by (metis completed_chars(1) list.sel(3) suffix_Cons)
    show ?thesis
    proof
      assume p: "prefix pending_lit (u @ w)"
      from su obtain h where T: "tl completed_lit = h @ u"
        unfolding suffix_def by blast
      from u(1) obtain c u' where uc: "u = c # u'"
        by (cases u) auto
      with p have c: "c = CHR ''s''"
        by (simp add: pending_lit_def)
      show False
      proof (cases u')
        case Nil
        with T uc c have "last (tl completed_lit) = CHR ''s''"
          by simp
        then show False
          by (simp add: completed_lit_def)
      next
        case (Cons d u'')
        with p uc have "d = CHR ''t''"
          by (simp add: pending_lit_def)
        with T uc c Cons have "tl completed_lit = h @ ''st'' @ u''"
          by simp
        then have "sublist ''st'' (tl completed_lit)"
          unfolding sublist_def by blast
        with completed_chars(3) show False ..
      qed
    qed
  qed
  then show "confined pending_lit completed_lit z"
    unfolding confined_def by blast
  show "\<not> sublist pending_lit completed_lit"
  proof
    assume "sublist pending_lit completed_lit"
    then obtain h r where "completed_lit = h @ pending_lit @ r"
      unfolding sublist_def by blast
    then have "suffix (pending_lit @ r) completed_lit" "pending_lit @ r \<noteq> []"
      unfolding suffix_def by (auto simp: pending_lit_def)
    with no [of "pending_lit @ r" "[]"] show False
      by simp
  qed
qed

section \<open>The two states of the scan\<close>

lemma re_sub_resume:
  "re_sub idl s = (case lazy_until idl s of None \<Rightarrow> s | Some (a, r) \<Rightarrow> a @ idl @ resume idl r)"
proof (cases "lazy_until idl s")
  case None
  then show ?thesis
    by (simp add: re_sub_unfold)
next
  case (Some p)
  obtain a r where p: "p = (a, r)"
    by (cases p)
  with Some have ar: "lazy_until idl s = Some (a, r)"
    by simp
  then have s: "s = a @ idl @ r"
    by (rule lazy_until_Some)
  show ?thesis
  proof (cases "lazy_until pending_lit r")
    case None
    with ar have "re_sub idl s = s"
      by (simp add: re_sub_unfold)
    moreover from None have "resume idl r = r"
      by (simp add: resume_def)
    ultimately have "re_sub idl s = a @ idl @ resume idl r"
      using s by simp
    with ar show ?thesis
      by simp
  next
    case (Some q)
    obtain g b where q: "q = (g, b)"
      by (cases q)
    with Some ar have "re_sub idl s = a @ idl @ g @ completed_lit @ re_sub idl b"
      by (simp add: re_sub_unfold [of idl s])
    moreover from Some q have "resume idl r = g @ completed_lit @ re_sub idl b"
      by (simp add: resume_def)
    ultimately have "re_sub idl s = a @ idl @ resume idl r"
      by simp
    with ar show ?thesis
      by simp
  qed
qed

lemma resume_free:
  assumes "\<not> sublist pending_lit x" and "confined pending_lit x z"
  shows "resume idl (x @ z) = x @ resume idl z"
proof -
  from assms(1) have "lazy_until pending_lit x = None"
    by (simp add: lazy_until_None_iff)
  then have "lazy_until pending_lit (x @ z) =
      map_option (\<lambda>(k, r). (x @ k, r)) (lazy_until pending_lit z)"
    using assms(2) by (rule lazy_until_append_right)
  then show ?thesis
    unfolding resume_def by (cases "lazy_until pending_lit z") auto
qed

lemma re_sub_free:
  assumes "\<not> sublist idl x" and "confined idl x z"
  shows "re_sub idl (x @ z) = x @ re_sub idl z"
proof -
  from assms(1) have "lazy_until idl x = None"
    by (simp add: lazy_until_None_iff)
  then have "lazy_until idl (x @ z) = map_option (\<lambda>(k, r). (x @ k, r)) (lazy_until idl z)"
    using assms(2) by (rule lazy_until_append_right)
  then show ?thesis
    by (cases "lazy_until idl z") (auto simp: re_sub_resume [of idl "x @ z"] re_sub_resume [of idl z])
qed

lemma re_sub_arm:
  assumes "\<not> sublist pending_lit x" and "sublist idl x" and "confined pending_lit x z"
  shows "re_sub idl (x @ z) = x @ resume idl z"
proof -
  from assms(2) obtain a r where ar: "lazy_until idl x = Some (a, r)"
    using lazy_until_None_iff [of idl x] by (cases "lazy_until idl x") auto
  then have x: "x = a @ idl @ r"
    by (rule lazy_until_Some)
  then have "suffix r x"
    unfolding suffix_def by (metis append.assoc)
  then have c: "confined pending_lit r z"
    by (rule confined_suffix [OF assms(3)])
  have "sublist r x"
    unfolding sublist_def using x by (metis append.assoc append_Nil2)
  with assms(1) have "\<not> sublist pending_lit r"
    using sublist_order.order.trans by blast
  then have "resume idl (r @ z) = r @ resume idl z"
    using c by (rule resume_free)
  moreover from ar have "lazy_until idl (x @ z) = Some (a, r @ z)"
    by (rule lazy_until_append)
  then have "re_sub idl (x @ z) = a @ idl @ resume idl (r @ z)"
    by (simp add: re_sub_resume [of idl "x @ z"])
  ultimately have "re_sub idl (x @ z) = (a @ idl @ r) @ resume idl z"
    by simp
  then show ?thesis
    unfolding x .
qed

text \<open>
  Whatever the text \<open>x\<close>, the scan of \<open>x @ z\<close> is the scan of \<open>x\<close> followed by a scan of
  \<open>z\<close> in one of the two states, provided no occurrence of either literal straddles the
  two texts.
\<close>

lemma scan_append:
  assumes "confined idl x z" and "confined pending_lit x z" and "idl \<noteq> []"
  shows "(re_sub idl (x @ z) = re_sub idl x @ re_sub idl z \<or>
          re_sub idl (x @ z) = re_sub idl x @ resume idl z) \<and>
         (resume idl (x @ z) = resume idl x @ re_sub idl z \<or>
          resume idl (x @ z) = resume idl x @ resume idl z)"
  using assms
proof (induction "length x" arbitrary: x rule: less_induct)
  case less
  have first: "re_sub idl (x @ z) = re_sub idl x @ re_sub idl z \<or>
               re_sub idl (x @ z) = re_sub idl x @ resume idl z"
  proof (cases "lazy_until idl x")
    case None
    then have n: "\<not> sublist idl x"
      by (simp add: lazy_until_None_iff)
    then have "re_sub idl x = x"
      by (rule re_sub_no_id)
    moreover from n less.prems(1) have "re_sub idl (x @ z) = x @ re_sub idl z"
      by (rule re_sub_free)
    ultimately show ?thesis
      by simp
  next
    case (Some p)
    obtain a r where p: "p = (a, r)"
      by (cases p)
    with Some have ar: "lazy_until idl x = Some (a, r)"
      by simp
    then have x: "x = a @ idl @ r"
      by (rule lazy_until_Some)
    then have sr: "suffix r x"
      unfolding suffix_def by (metis append.assoc)
    from x less.prems(3) have len: "length r < length x"
      by simp
    from ar have "lazy_until idl (x @ z) = Some (a, r @ z)"
      by (rule lazy_until_append)
    then have 1: "re_sub idl (x @ z) = a @ idl @ resume idl (r @ z)"
      by (simp add: re_sub_resume [of idl "x @ z"])
    from ar have 2: "re_sub idl x = a @ idl @ resume idl r"
      by (simp add: re_sub_resume [of idl x])
    from less.hyps [OF len confined_suffix [OF less.prems(1) sr] confined_suffix [OF less.prems(2) sr] less.prems(3)]
    have "resume idl (r @ z) = resume idl r @ re_sub idl z \<or>
          resume idl (r @ z) = resume idl r @ resume idl z"
      by blast
    with 1 2 show ?thesis
      by auto
  qed
  have second: "resume idl (x @ z) = resume idl x @ re_sub idl z \<or>
                resume idl (x @ z) = resume idl x @ resume idl z"
  proof (cases "lazy_until pending_lit x")
    case None
    then have n: "\<not> sublist pending_lit x"
      by (simp add: lazy_until_None_iff)
    from None have "resume idl x = x"
      by (simp add: resume_def)
    moreover from n less.prems(2) have "resume idl (x @ z) = x @ resume idl z"
      by (rule resume_free)
    ultimately show ?thesis
      by simp
  next
    case (Some p)
    obtain g b where p: "p = (g, b)"
      by (cases p)
    with Some have gb: "lazy_until pending_lit x = Some (g, b)"
      by simp
    then have x: "x = g @ pending_lit @ b"
      by (rule lazy_until_Some)
    then have sb: "suffix b x"
      unfolding suffix_def by (metis append.assoc)
    from x have len: "length b < length x"
      by (simp add: pending_lit_def)
    from gb have "lazy_until pending_lit (x @ z) = Some (g, b @ z)"
      by (rule lazy_until_append)
    then have 1: "resume idl (x @ z) = g @ completed_lit @ re_sub idl (b @ z)"
      by (simp add: resume_def)
    from gb have 2: "resume idl x = g @ completed_lit @ re_sub idl b"
      by (simp add: resume_def)
    from less.hyps [OF len confined_suffix [OF less.prems(1) sb] confined_suffix [OF less.prems(2) sb] less.prems(3)]
    have "re_sub idl (b @ z) = re_sub idl b @ re_sub idl z \<or>
          re_sub idl (b @ z) = re_sub idl b @ resume idl z"
      by blast
    with 1 2 show ?thesis
      by auto
  qed
  from first second show ?case ..
qed

section \<open>A pass only completes pending statuses\<close>

lemma completes_append_left:
  "completes y y' \<Longrightarrow> completes (x @ y) (x @ y')"
proof (induction rule: completes.induct)
  case (same s)
  show ?case
    by (rule completes.same)
next
  case (one u v)
  have "completes ((x @ u) @ pending_lit @ v) ((x @ u) @ completed_lit @ v)"
    by (rule completes.one)
  then show ?case
    by simp
next
  case (more s t u)
  then show ?case
    by (blast intro: completes.more)
qed

lemma completes_append_right:
  "completes x x' \<Longrightarrow> completes (x @ y) (x' @ y)"
proof (induction rule: completes.induct)
  case (same s)
  show ?case
    by (rule completes.same)
next
  case (one u v)
  have "completes (u @ pending_lit @ (v @ y)) (u @ completed_lit @ (v @ y))"
    by (rule completes.one)
  then show ?case
    by simp
next
  case (more s t u)
  then show ?case
    by (blast intro: completes.more)
qed

lemma completes_re_sub:
  "completes s (re_sub idl s)"
proof (induction "length s" arbitrary: s rule: less_induct)
  case less
  show ?case
  proof (cases "lazy_until idl s")
    case None
    then have "re_sub idl s = s"
      by (simp add: re_sub_unfold)
    then show ?thesis
      by (simp add: completes.same)
  next
    case (Some p)
    obtain a r where p: "p = (a, r)"
      by (cases p)
    with Some have ar: "lazy_until idl s = Some (a, r)"
      by simp
    then have s: "s = a @ idl @ r"
      by (rule lazy_until_Some)
    show ?thesis
    proof (cases "lazy_until pending_lit r")
      case None
      with ar have "re_sub idl s = s"
        by (simp add: re_sub_unfold)
      then show ?thesis
        by (simp add: completes.same)
    next
      case (Some q)
      obtain g b where q: "q = (g, b)"
        by (cases q)
      with Some have gb: "lazy_until pending_lit r = Some (g, b)"
        by simp
      then have r: "r = g @ pending_lit @ b"
        by (rule lazy_until_Some)
      from ar gb have out: "re_sub idl s = (a @ idl @ g @ completed_lit) @ re_sub idl b"
        by (simp add: re_sub_unfold [of idl s])
      from s r have s': "s = (a @ idl @ g) @ pending_lit @ b"
        by simp
      then have "length b < length s"
        by (simp add: pending_lit_def)
      then have "completes b (re_sub idl b)"
        by (rule less.hyps)
      then have "completes ((a @ idl @ g @ completed_lit) @ b)
          ((a @ idl @ g @ completed_lit) @ re_sub idl b)"
        by (rule completes_append_left)
      moreover have "completes ((a @ idl @ g) @ pending_lit @ b) ((a @ idl @ g) @ completed_lit @ b)"
        by (rule completes.one)
      then have "completes s ((a @ idl @ g @ completed_lit) @ b)"
        unfolding s' by simp
      ultimately show ?thesis
        unfolding out by (rule completes.more [rotated])
    qed
  qed
qed

lemma completes_resume:
  "completes s (resume idl s)"
proof (cases "lazy_until pending_lit s")
  case None
  then show ?thesis
    by (simp add: resume_def completes.same)
next
  case (Some q)
  obtain g b where q: "q = (g, b)"
    by (cases q)
  with Some have gb: "lazy_until pending_lit s = Some (g, b)"
    by simp
  then have s: "s = g @ pending_lit @ b"
    by (rule lazy_until_Some)
  from gb have out: "resume idl s = (g @ completed_lit) @ re_sub idl b"
    by (simp add: resume_def)
  have "completes ((g @ completed_lit) @ b) ((g @ completed_lit) @ re_sub idl b)"
    by (rule completes_append_left) (rule completes_re_sub)
  moreover have "completes s ((g @ completed_lit) @ b)"
    unfolding s using completes.one [of g b] by simp
  ultimately show ?thesis
    unfolding out by (rule completes.more [rotated])
qed

lemma completes_fold:
  "completes c (fold update_task ns c)"
proof (induction ns arbitrary: c)
  case Nil
  show ?case
    by (simp add: completes.same)
next
  case (Cons n ns)
  have "completes c (update_task n c)"
    unfolding update_task_def by (rule completes_re_sub)
  moreover have "completes (update_task n c) (fold update_task ns (update_task n c))"
    by (rule Cons.IH)
  ultimately show ?case
    by (simp add: completes.more)
qed

section \<open>The scan across a status and across a record\<close>

lemma re_sub_status:
  assumes "m \<in> set completed_tasks" and "X = pending_lit \<or> X = completed_lit"
  shows "re_sub (id_lit m) (X @ y) = X @ re_sub (id_lit m) y"
  using id_skips_status [OF assms] by (rule re_sub_free)

lemma resume_pending:
  "resume idl (pending_lit @ y) = completed_lit @ re_sub idl y"
proof -
  have "lazy_until pending_lit (pending_lit @ y) =
      Some ([], drop (length pending_lit) (pending_lit @ y))"
    by (rule lazy_until_prefix) simp
  then show ?thesis
    by (simp add: resume_def)
qed

lemma resume_completed:
  "resume idl (completed_lit @ y) = completed_lit @ resume idl y"
  by (rule resume_free [OF pending_not_in_completed confined_pending_completed])

lemma resume_status:
  assumes "X = pending_lit \<or> X = completed_lit"
  shows "\<exists>y'. resume idl (X @ y) = completed_lit @ y' \<and> (y' = re_sub idl y \<or> y' = resume idl y)"
  using assms resume_pending [of idl y] resume_completed [of idl y] by auto

text \<open>A record: an identifier literal of the range and the text up to its status.\<close>

lemma record_free:
  assumes "n \<in> set completed_tasks" and "\<not> sublist pending_lit g"
  shows "\<not> sublist pending_lit (id_lit n @ g)"
proof -
  from assms(2) have "lazy_until pending_lit g = None"
    by (simp add: lazy_until_None_iff)
  then have "lazy_until pending_lit (id_lit n @ g) = None"
    by (simp add: pending_skips_id [OF assms(1)])
  then show ?thesis
    by (simp add: lazy_until_None_iff)
qed

lemma resume_record:
  assumes "n \<in> set completed_tasks" and "\<not> sublist pending_lit g"
    and "X = pending_lit \<or> X = completed_lit"
  shows "\<exists>y'. resume idl (id_lit n @ g @ X @ y) = id_lit n @ g @ completed_lit @ y' \<and>
           (y' = re_sub idl y \<or> y' = resume idl y)"
proof -
  have "resume idl ((id_lit n @ g) @ X @ y) = (id_lit n @ g) @ resume idl (X @ y)"
    using record_free [OF assms(1,2)] confined_pending_status [OF assms(3)]
    by (rule resume_free)
  with resume_status [OF assms(3), of idl y] show ?thesis
    by auto
qed

lemma re_sub_record:
  assumes "m \<in> set completed_tasks" and "n \<in> set completed_tasks"
    and "\<not> sublist pending_lit g" and "X = pending_lit \<or> X = completed_lit"
  shows "\<exists>X' y'. re_sub (id_lit m) (id_lit n @ g @ X @ y) = id_lit n @ g @ X' @ y' \<and>
           (X' = completed_lit \<or> (X' = X \<and> m \<noteq> n)) \<and>
           (y' = re_sub (id_lit m) y \<or> y' = resume (id_lit m) y)"
proof (cases "sublist (id_lit m) (id_lit n @ g)")
  case True
  have "re_sub (id_lit m) ((id_lit n @ g) @ X @ y) = (id_lit n @ g) @ resume (id_lit m) (X @ y)"
    using record_free [OF assms(2,3)] True confined_pending_status [OF assms(4)]
    by (rule re_sub_arm)
  with resume_status [OF assms(4), of "id_lit m" y] show ?thesis
    by auto
next
  case False
  have neq: "m \<noteq> n"
  proof
    assume "m = n"
    then have "sublist (id_lit m) (id_lit n @ g)"
      by (simp add: prefix_imp_sublist)
    with False show False ..
  qed
  have "re_sub (id_lit m) ((id_lit n @ g) @ X @ y) =
      (id_lit n @ g) @ re_sub (id_lit m) (X @ y)"
    using False confined_id_status [OF assms(1,4)] by (rule re_sub_free)
  then have eq: "re_sub (id_lit m) (id_lit n @ g @ X @ y) =
      id_lit n @ g @ X @ re_sub (id_lit m) y"
    by (simp add: re_sub_status [OF assms(1,4)])
  show ?thesis
    by (rule exI [of _ X], rule exI [of _ "re_sub (id_lit m) y"]) (simp add: eq neq)
qed

lemma record_step:
  assumes "m \<in> set completed_tasks" and "n \<in> set completed_tasks"
    and "\<not> sublist pending_lit g" and "X = pending_lit \<or> X = completed_lit"
  shows "\<exists>X' y'. update_task m (x @ id_lit n @ g @ X @ y) =
             update_task m x @ id_lit n @ g @ X' @ y' \<and>
           (X' = completed_lit \<or> (X' = X \<and> m \<noteq> n)) \<and>
           (y' = re_sub (id_lit m) y \<or> y' = resume (id_lit m) y)"
proof -
  have ne: "id_lit m \<noteq> []"
    using id_chars(1) [OF assms(1)] by auto
  from scan_append [OF confined_id_id [OF assms(1,2)] confined_pending_id [OF assms(2)] ne]
  have "re_sub (id_lit m) (x @ id_lit n @ g @ X @ y) =
          re_sub (id_lit m) x @ re_sub (id_lit m) (id_lit n @ g @ X @ y) \<or>
        re_sub (id_lit m) (x @ id_lit n @ g @ X @ y) =
          re_sub (id_lit m) x @ resume (id_lit m) (id_lit n @ g @ X @ y)"
    by blast
  then show ?thesis
  proof
    assume "re_sub (id_lit m) (x @ id_lit n @ g @ X @ y) =
          re_sub (id_lit m) x @ re_sub (id_lit m) (id_lit n @ g @ X @ y)"
    with re_sub_record [OF assms, of y] show ?thesis
      unfolding update_task_def by auto
  next
    assume "re_sub (id_lit m) (x @ id_lit n @ g @ X @ y) =
          re_sub (id_lit m) x @ resume (id_lit m) (id_lit n @ g @ X @ y)"
    with resume_record [OF assms(2,3,4), of "id_lit m" y] show ?thesis
      unfolding update_task_def by auto
  qed
qed

text \<open>
  Through any number of steps of the loop the record stays where it is, the texts before
  and after it only have pending statuses completed, and once the step of its own
  identifier has run its status is completed.
\<close>

lemma record_fold:
  assumes "n \<in> set completed_tasks" and "\<not> sublist pending_lit g"
    and "set ms \<subseteq> set completed_tasks"
    and "X = pending_lit \<or> X = completed_lit"
    and "completes a0 a" and "completes b0 b"
  shows "\<exists>a' b' X'. fold update_task ms (a @ id_lit n @ g @ X @ b) = a' @ id_lit n @ g @ X' @ b' \<and>
           completes a0 a' \<and> completes b0 b' \<and>
           (X' = completed_lit \<or> (X' = X \<and> n \<notin> set ms))"
  using assms(3-)
proof (induction ms arbitrary: a b X)
  case Nil
  then show ?case
    by auto
next
  case (Cons m ms)
  from Cons.prems(1) have m: "m \<in> set completed_tasks" and ms: "set ms \<subseteq> set completed_tasks"
    by auto
  from record_step [OF m assms(1,2) Cons.prems(2), of a b]
  obtain X1 b1 where step: "update_task m (a @ id_lit n @ g @ X @ b) =
        update_task m a @ id_lit n @ g @ X1 @ b1"
    and X1: "X1 = completed_lit \<or> (X1 = X \<and> m \<noteq> n)"
    and b1: "b1 = re_sub (id_lit m) b \<or> b1 = resume (id_lit m) b"
    by blast
  from X1 Cons.prems(2) have X1': "X1 = pending_lit \<or> X1 = completed_lit"
    by auto
  have "completes a (update_task m a)"
    unfolding update_task_def by (rule completes_re_sub)
  with Cons.prems(3) have a1: "completes a0 (update_task m a)"
    by (rule completes.more)
  from b1 have "completes b b1"
    using completes_re_sub [of b "id_lit m"] completes_resume [of b "id_lit m"] by auto
  with Cons.prems(4) have b1': "completes b0 b1"
    by (rule completes.more)
  from Cons.IH [OF ms X1' a1 b1']
  obtain a' b' X' where
    "fold update_task ms (update_task m a @ id_lit n @ g @ X1 @ b1) = a' @ id_lit n @ g @ X' @ b'"
    "completes a0 a'" "completes b0 b'" "X' = completed_lit \<or> (X' = X1 \<and> n \<notin> set ms)"
    by blast
  with step X1 show ?case
    by auto
qed

section \<open>Encodings and newlines\<close>

text \<open>
  A byte below \<open>0x80\<close> is a character by itself in each of the three encodings: the bytes
  before it and the bytes after it are well-formed independently.
\<close>

lemma utf8_ok_split:
  assumes "byte c < 0x80"
  shows "utf8_ok (x @ c # y) \<longleftrightarrow> utf8_ok x \<and> utf8_ok y"
proof (induction x rule: utf8_ok.induct)
  case 1
  from assms show ?case
    by simp
next
  case (2 d ds)
  consider (a) "byte d < 0x80"
    | (b) "\<not> byte d < 0x80" "0xC2 \<le> byte d \<and> byte d \<le> 0xDF"
    | (c) "\<not> byte d < 0x80" "\<not> (0xC2 \<le> byte d \<and> byte d \<le> 0xDF)" "0xE0 \<le> byte d \<and> byte d \<le> 0xEF"
    | (d) "\<not> byte d < 0x80" "\<not> (0xC2 \<le> byte d \<and> byte d \<le> 0xDF)" "\<not> (0xE0 \<le> byte d \<and> byte d \<le> 0xEF)"
          "0xF0 \<le> byte d \<and> byte d \<le> 0xF4"
    | (e) "\<not> byte d < 0x80" "\<not> (0xC2 \<le> byte d \<and> byte d \<le> 0xDF)" "\<not> (0xE0 \<le> byte d \<and> byte d \<le> 0xEF)"
          "\<not> (0xF0 \<le> byte d \<and> byte d \<le> 0xF4)"
    by blast
  then show ?case
  proof cases
    case a
    with 2(1) show ?thesis
      by simp
  next
    case b
    show ?thesis
    proof (cases ds)
      case Nil
      with b assms show ?thesis
        by (auto simp: continuation_def)
    next
      case (Cons c1 r)
      with b 2(2) show ?thesis
        by simp
    qed
  next
    case c
    show ?thesis
    proof (cases ds)
      case Nil
      with c assms show ?thesis
        by (cases y) (auto simp: continuation_def)
    next
      case ds: (Cons c1 r1)
      show ?thesis
      proof (cases r1)
        case Nil
        with c assms ds show ?thesis
          by (auto simp: continuation_def)
      next
        case (Cons c2 r)
        with c ds 2(3) show ?thesis
          by simp
      qed
    qed
  next
    case d
    show ?thesis
    proof (cases ds)
      case Nil
      with d assms show ?thesis
        by (cases y; cases "tl y") (auto simp: continuation_def)
    next
      case ds: (Cons c1 r1)
      show ?thesis
      proof (cases r1)
        case Nil
        with d assms ds show ?thesis
          by (cases y) (auto simp: continuation_def)
      next
        case r1: (Cons c2 r2)
        show ?thesis
        proof (cases r2)
          case Nil
          with d assms ds r1 show ?thesis
            by (auto simp: continuation_def)
        next
          case (Cons c3 r)
          with d ds r1 2(4) show ?thesis
            by simp
        qed
      qed
    qed
  next
    case e
    then have "\<not> utf8_ok (d # t)" for t
      by auto
    then show ?thesis
      by (metis append_Cons)
  qed
qed

lemma well_encoded_split:
  assumes "byte c < 0x80"
  shows "well_encoded e (x @ c # y) \<longleftrightarrow> well_encoded e x \<and> well_encoded e y"
  using assms by (cases e) (auto simp: utf8_ok_split)

lemma well_encoded_ascii_prefix:
  "list_all (\<lambda>c. byte c < 0x80) t \<Longrightarrow> well_encoded e (t @ y) \<longleftrightarrow> well_encoded e y"
proof (induction t)
  case Nil
  show ?case
    by simp
next
  case (Cons c t)
  then have "byte c < 0x80"
    by simp
  from well_encoded_split [OF this, of e "[]" "t @ y"] Cons show ?case
    by (cases e) simp_all
qed

lemma well_encoded_token:
  assumes "list_all (\<lambda>c. byte c < 0x80) t" and "t \<noteq> []"
  shows "well_encoded e (x @ t @ y) \<longleftrightarrow> well_encoded e x \<and> well_encoded e y"
proof -
  from assms obtain c t' where t: "t = c # t'" and c: "byte c < 0x80"
    and t': "list_all (\<lambda>c. byte c < 0x80) t'"
    by (cases t) auto
  have "well_encoded e (x @ c # (t' @ y)) \<longleftrightarrow> well_encoded e x \<and> well_encoded e (t' @ y)"
    using c by (rule well_encoded_split)
  with t t' show ?thesis
    by (simp add: well_encoded_ascii_prefix)
qed

lemma literals_ascii:
  "list_all (\<lambda>c. byte c < 0x80) pending_lit"
  "list_all (\<lambda>c. byte c < 0x80) completed_lit"
  by (simp_all add: pending_lit_def completed_lit_def nl_def byte_def)

lemma well_encoded_completes:
  "completes s t \<Longrightarrow> well_encoded e s \<longleftrightarrow> well_encoded e t"
proof (induction rule: completes.induct)
  case (same s)
  show ?case ..
next
  case (one x y)
  have "well_encoded e (x @ pending_lit @ y) \<longleftrightarrow> well_encoded e x \<and> well_encoded e y"
    using literals_ascii(1) pending_lit_nonempty by (rule well_encoded_token)
  moreover have "completed_lit \<noteq> []"
    by (simp add: completed_lit_def)
  with literals_ascii(2)
  have "well_encoded e (x @ completed_lit @ y) \<longleftrightarrow> well_encoded e x \<and> well_encoded e y"
    by (rule well_encoded_token)
  ultimately show ?case
    by simp
next
  case (more s t u)
  then show ?case
    by simp
qed

text \<open>Reading: the translation of the newlines keeps a text well-formed.\<close>

lemma universal_newlines_Cons:
  "c \<noteq> cr \<Longrightarrow> universal_newlines (c # s) = c # universal_newlines s"
  by (cases s) auto

lemma universal_newlines_no_cr:
  "cr \<notin> set s \<Longrightarrow> universal_newlines s = s"
  by (induction s) (auto simp: universal_newlines_Cons)

lemma universal_newlines_append:
  "cr \<notin> set x \<Longrightarrow> universal_newlines (x @ z) = x @ universal_newlines z"
  by (induction x) (auto simp: universal_newlines_Cons)

lemma universal_newlines_cr:
  "universal_newlines (cr # y) =
     nl # universal_newlines (if y \<noteq> [] \<and> hd y = nl then tl y else y)"
  by (cases y) (auto simp: cr_def nl_def)

lemma well_encoded_universal_newlines:
  "well_encoded e s \<Longrightarrow> well_encoded e (universal_newlines s)"
proof (induction "length s" arbitrary: s rule: less_induct)
  case less
  show ?case
  proof (cases "cr \<in> set s")
    case False
    with less.prems show ?thesis
      by (simp add: universal_newlines_no_cr)
  next
    case True
    then obtain x y where s: "s = x @ cr # y" and x: "cr \<notin> set x"
      by (auto dest: split_list_first)
    define y' where "y' = (if y \<noteq> [] \<and> hd y = nl then tl y else y)"
    have ascii: "byte cr < 0x80" "byte nl < 0x80"
      by (simp_all add: cr_def nl_def byte_def)
    from less.prems s have wx: "well_encoded e x" and wy: "well_encoded e y"
      by (simp_all add: well_encoded_split [OF ascii(1)])
    have "well_encoded e y'"
    proof (cases "y \<noteq> [] \<and> hd y = nl")
      case True
      then have "y = [] @ nl # y'"
        by (cases y) (auto simp: y'_def)
      with wy well_encoded_split [OF ascii(2), of e "[]" y'] show ?thesis
        by metis
    next
      case False
      then have "y' = y"
        unfolding y'_def by (rule if_not_P)
      with wy show ?thesis
        by simp
    qed
    moreover have "length y' < length s"
      unfolding s y'_def by (cases y) auto
    ultimately have "well_encoded e (universal_newlines y')"
      by (rule less.hyps [rotated])
    moreover have "universal_newlines s = x @ nl # universal_newlines y'"
      unfolding s y'_def using x by (simp add: universal_newlines_append universal_newlines_cr)
    ultimately show ?thesis
      using wx by (simp add: well_encoded_split [OF ascii(2)])
  qed
qed

text \<open>Writing: so does the translation of the newlines to the line separator.\<close>

lemma write_newlines_append:
  "write_newlines sep (x @ z) = write_newlines sep x @ write_newlines sep z"
  by (simp add: write_newlines_def)

lemma write_newlines_no_nl:
  "nl \<notin> set s \<Longrightarrow> write_newlines sep s = s"
  by (induction s) (auto simp: write_newlines_def)

lemma write_newlines_nl:
  "write_newlines sep (nl # y) = sep @ write_newlines sep y"
  by (simp add: write_newlines_def)

lemma linesep_ascii:
  "list_all (\<lambda>c. byte c < 0x80) (linesep p)" "linesep p \<noteq> []"
  by (cases p; simp add: cr_def nl_def byte_def)+

lemma well_encoded_write_newlines:
  assumes "list_all (\<lambda>c. byte c < 0x80) sep" and "sep \<noteq> []"
  shows "well_encoded e s \<Longrightarrow> well_encoded e (write_newlines sep s)"
proof (induction "length s" arbitrary: s rule: less_induct)
  case less
  show ?case
  proof (cases "nl \<in> set s")
    case False
    with less.prems show ?thesis
      by (simp add: write_newlines_no_nl)
  next
    case True
    then obtain x y where s: "s = x @ nl # y" and x: "nl \<notin> set x"
      by (auto dest: split_list_first)
    have "byte nl < 0x80"
      by (simp add: nl_def byte_def)
    with less.prems s have wx: "well_encoded e x" and wy: "well_encoded e y"
      by (simp_all add: well_encoded_split)
    have "length y < length s"
      unfolding s by simp
    then have "well_encoded e (write_newlines sep y)"
      using wy by (rule less.hyps)
    moreover have "write_newlines sep s = x @ sep @ write_newlines sep y"
      unfolding s using x
      by (simp add: write_newlines_append write_newlines_no_nl write_newlines_nl)
    ultimately show ?thesis
      using wx by (simp add: well_encoded_token [OF assms])
  qed
qed

text \<open>A text without a newline is written as it is, wherever it stands.\<close>

lemma sublist_write_newlines:
  assumes "sublist u s" and "nl \<notin> set u"
  shows "sublist u (write_newlines sep s)"
proof -
  from assms(1) obtain p q where "s = p @ u @ q"
    unfolding sublist_def by blast
  then have "write_newlines sep s = write_newlines sep p @ u @ write_newlines sep q"
    using assms(2) by (simp add: write_newlines_append write_newlines_no_nl)
  then show ?thesis
    unfolding sublist_def by blast
qed

text \<open>The text that a run writes is well-formed in the encoding in which it was read.\<close>

lemma well_encoded_output:
  assumes "well_encoded e bytes"
  shows "well_encoded e
    (write_newlines (linesep p) (update_content (universal_newlines bytes)))"
proof -
  from assms have "well_encoded e (universal_newlines bytes)"
    by (rule well_encoded_universal_newlines)
  moreover have "completes (universal_newlines bytes) (update_content (universal_newlines bytes))"
    unfolding update_content_def by (rule completes_fold)
  ultimately have "well_encoded e (update_content (universal_newlines bytes))"
    by (simp add: well_encoded_completes)
  with linesep_ascii [of p] show ?thesis
    by (rule well_encoded_write_newlines)
qed

text \<open>A pass that changes the text leaves the replacement text in it, and so the date line.\<close>

lemma completes_keeps_completed:
  "completes s t \<Longrightarrow> sublist completed_lit s \<Longrightarrow> sublist completed_lit t"
proof (induction rule: completes.induct)
  case (same s)
  then show ?case .
next
  case (one x y)
  show ?case
    unfolding sublist_def by blast
next
  case (more s t u)
  then show ?case
    by simp
qed

lemma completes_changed:
  "completes s t \<Longrightarrow> s \<noteq> t \<Longrightarrow> sublist completed_lit t"
proof (induction rule: completes.induct)
  case (same s)
  then show ?case
    by simp
next
  case (one x y)
  show ?case
    unfolding sublist_def by blast
next
  case (more s t u)
  show ?case
  proof (cases "s = t")
    case True
    with more show ?thesis
      by simp
  next
    case False
    then have "sublist completed_lit t"
      by (rule more.IH(1))
    with more.hyps(2) show ?thesis
      by (rule completes_keeps_completed)
  qed
qed

section \<open>The record of a task of the range\<close>


text \<open>
  C1.  Let \<open>n\<close> be a task number of the range and let the document hold the list item
  \<open>id_lit n\<close> followed, after a text \<open>g\<close> of any characters (newlines too) without a
  pending status, by the pending status: the lazy star of the pattern stops at that status.
  Then in the text that the pass produces, which is the text written back, the identifier
  and \<open>g\<close> are followed by \<open>completed_lit\<close>: the completed status, a newline, six spaces and
  the date line.  The texts before and after the record are the same up to pending statuses
  that the pass has completed as well.
\<close>

theorem pending_record_completed:
  assumes "n \<in> set completed_tasks" and "\<not> sublist pending_lit g"
  shows "\<exists>a' b'. update_content (a @ id_lit n @ g @ pending_lit @ b) =
             a' @ id_lit n @ g @ completed_lit @ b' \<and>
           completes a a' \<and> completes b b'"
proof -
  have "\<exists>a' b' X'. fold update_task completed_tasks (a @ id_lit n @ g @ pending_lit @ b) =
        a' @ id_lit n @ g @ X' @ b' \<and> completes a a' \<and> completes b b' \<and>
        (X' = completed_lit \<or> (X' = pending_lit \<and> n \<notin> set completed_tasks))"
    by (rule record_fold [OF assms subset_refl _ completes.same completes.same]) simp
  then obtain a' b' X' where "fold update_task completed_tasks (a @ id_lit n @ g @ pending_lit @ b) =
        a' @ id_lit n @ g @ X' @ b'"
    and "completes a a'" and "completes b b'"
    and "X' = completed_lit \<or> (X' = pending_lit \<and> n \<notin> set completed_tasks)"
    by blast
  with assms(1) show ?thesis
    unfolding update_content_def by blast
qed

theorem pending_record_completed_witness:
  \<open>5 \<in> set completed_tasks \<and> \<not> sublist pending_lit ([nl] @ ''      '') \<and>
   (\<exists>a' b'. update_content ((''tasks:'' @ [nl]) @ id_lit 5 @ ([nl] @ ''      '') @ pending_lit @ [nl]) =
        a' @ id_lit 5 @ ([nl] @ ''      '') @ completed_lit @ b' \<and>
      completes (''tasks:'' @ [nl]) a' \<and> completes [nl] b') \<and>
   update_content (pending_record 5) =
     ''- task_id: "TASK-005"'' @ [nl] @ ''      status: "completed"'' @ [nl] @
     ''      completed_date: "2025-11-05"'' @ [nl]\<close>
proof -
  have 1: "5 \<in> set completed_tasks"
    by code_simp
  have 2: "\<not> sublist pending_lit ([nl] @ ''      '')"
    by code_simp
  have 3: \<open>update_content (pending_record 5) =
     ''- task_id: "TASK-005"'' @ [nl] @ ''      status: "completed"'' @ [nl] @
     ''      completed_date: "2025-11-05"'' @ [nl]\<close>
    by code_simp
  have 4: "\<exists>a' b'. update_content ((''tasks:'' @ [nl]) @ id_lit 5 @ ([nl] @ ''      '') @ pending_lit @ [nl]) =
        a' @ id_lit 5 @ ([nl] @ ''      '') @ completed_lit @ b' \<and>
      completes (''tasks:'' @ [nl]) a' \<and> completes [nl] b'"
    by (rule pending_record_completed [OF 1 2])
  show ?thesis
    by (rule conjI [OF 1 conjI [OF 2 conjI [OF 4 3]]])
qed



section \<open>A second pass\<close>












section \<open>The run as a whole\<close>

lemma report_value: "report = ''Updated 30 tasks to completed status''"
  by code_simp

lemma completed_tasks_value:
  "completed_tasks =
     [1, 2, 3, 4, 5, 6, 7, 8, 9, 10, 11, 12, 13, 14, 15, 16, 17, 18, 19, 20,
      21, 22, 23, 24, 25, 26, 27, 28, 29, 30]"
  by code_simp

lemma main_success:
  assumes "file_content w = Some bytes" and "well_encoded (locale_encoding w) bytes"
    and "file_writable w"
  shows "main w =
    (None, w\<lparr>file_content :=
                Some (write_newlines (linesep (platform w))
                        (update_content (universal_newlines bytes))),
            effects := effects w @
              [Read,
               Write (write_newlines (linesep (platform w))
                        (update_content (universal_newlines bytes))),
               Print report]\<rparr>)"
proof -
  have "well_encoded (locale_encoding w)
      (write_newlines (linesep (platform w)) (update_content (universal_newlines bytes)))"
    using assms(2) by (rule well_encoded_output)
  with assms show ?thesis
    by (simp add: main_def read_text_def write_text_def print_line_def decode_def encode_def
        locale_encoding_def)
qed

lemma main_read_failure:
  "file_content w = None \<Longrightarrow> main w = (Some ReadError, w)"
  by (simp add: main_def read_text_def)

lemma main_decode_failure:
  assumes "file_content w = Some bytes" and "\<not> well_encoded (locale_encoding w) bytes"
  shows "main w = (Some DecodeError, w)"
  using assms by (simp add: main_def read_text_def decode_def)

lemma main_write_failure:
  assumes "file_content w = Some bytes" and "well_encoded (locale_encoding w) bytes"
    and "\<not> file_writable w"
  shows "main w = (Some WriteError, w\<lparr>effects := effects w @ [Read]\<rparr>)"
  using assms by (simp add: main_def read_text_def write_text_def decode_def)

lemma update_content_foldl:
  "update_content content =
     foldl (\<lambda>text n. re_sub (id_lit n) text) content
       [1, 2, 3, 4, 5, 6, 7, 8, 9, 10, 11, 12, 13, 14, 15, 16, 17, 18, 19, 20,
        21, 22, 23, 24, 25, 26, 27, 28, 29, 30]"
proof -
  have "update_content content =
          foldl (\<lambda>text n. re_sub (id_lit n) text) content completed_tasks"
    unfolding update_content_def foldl_conv_fold
    by (rule arg_cong [where f = "\<lambda>f. fold f completed_tasks content"])
       (simp add: fun_eq_iff update_task_def)
  then show ?thesis
    by (simp only: completed_tasks_value)
qed

lemma date_line_in_completed:
  \<open>sublist ''completed_date: "2025-11-05"'' completed_lit\<close>
  unfolding sublist_def completed_lit_def
  by (rule exI [of _ \<open>''status: "completed"'' @ [nl] @ ''      ''\<close>], rule exI [of _ "[]"]) simp

text \<open>
  C6.  Whenever the file can be read (it is there and its bytes are text in the encoding
  of the locale) and written, the run ends without an error and the last thing it does is
  to print the count message, which names 30, the length of the hardcoded range: the
  message does not depend on the document, so neither on how many substitutions were made
  nor on which records exist.
\<close>

theorem report_counts_attempts:
  assumes "file_content w = Some bytes" and "well_encoded (locale_encoding w) bytes"
    and "file_writable w"
  shows "fst (main w) = None \<and>
         last (effects (snd (main w))) = Print ''Updated 30 tasks to completed status''"
  using main_success [OF assms] by (simp add: report_value)

theorem report_counts_attempts_witness:
  "fst (main (example_world (Some (pending_record 5 @ pending_record 8)) ''2025-11-06'')) = None \<and>
   last (effects (snd (main (example_world (Some (pending_record 5 @ pending_record 8)) ''2025-11-06''))))
     = Print ''Updated 30 tasks to completed status''"
proof -
  let ?w = "example_world (Some (pending_record 5 @ pending_record 8)) ''2025-11-06''"
  have 1: "file_content ?w = Some (pending_record 5 @ pending_record 8)"
    by (simp add: example_world_def)
  have 2: "well_encoded (locale_encoding ?w) (pending_record 5 @ pending_record 8)"
    by code_simp
  have 3: "file_writable ?w"
    by (simp add: example_world_def)
  show ?thesis
    by (rule report_counts_attempts [OF 1 2 3])
qed

text \<open>
  C7.  A successful run reads the file once, then writes it once, then prints: these are
  its only effects, in this order.  The text written is the text read, put through the
  substitution for task numbers 1, 2, ..., 30 one after the other, each applied to the
  result of the one before; the bytes written, which are the content of the file
  afterwards, are that text with its newlines as the operating system writes them.
\<close>

theorem single_read_single_write:
  assumes "file_content w = Some bytes" and "well_encoded (locale_encoding w) bytes"
    and "file_writable w"
  shows "effects (snd (main w)) =
           effects w @
           [Read,
            Write (write_newlines (linesep (platform w))
              (foldl (\<lambda>text n. re_sub (id_lit n) text) (universal_newlines bytes)
                 [1, 2, 3, 4, 5, 6, 7, 8, 9, 10, 11, 12, 13, 14, 15, 16, 17, 18, 19, 20,
                  21, 22, 23, 24, 25, 26, 27, 28, 29, 30])),
            Print report] \<and>
         file_content (snd (main w)) =
           Some (write_newlines (linesep (platform w))
             (foldl (\<lambda>text n. re_sub (id_lit n) text) (universal_newlines bytes)
                [1, 2, 3, 4, 5, 6, 7, 8, 9, 10, 11, 12, 13, 14, 15, 16, 17, 18, 19, 20,
                 21, 22, 23, 24, 25, 26, 27, 28, 29, 30]))"
  unfolding update_content_foldl [symmetric]
  using main_success [OF assms] by simp

theorem single_read_single_write_witness:
  "effects (snd (main (example_world (Some ordered_document) ''2025-11-06''))) =
     [Read,
      Write (id_lit 1 @ [nl] @ id_lit 2 @ completed_lit @ id_lit 1 @ completed_lit @ completed_lit),
      Print report] \<and>
   file_content (snd (main (example_world (Some ordered_document) ''2025-11-06''))) =
     Some (id_lit 1 @ [nl] @ id_lit 2 @ completed_lit @ id_lit 1 @ completed_lit @ completed_lit)"
proof -
  let ?w = "example_world (Some ordered_document) ''2025-11-06''"
  have 1: "file_content ?w = Some ordered_document"
    by (simp add: example_world_def)
  have 2: "well_encoded (locale_encoding ?w) ordered_document"
    by code_simp
  have 3: "file_writable ?w"
    by (simp add: example_world_def)
  have 4: "effects ?w = []" "platform ?w = Posix"
    by (simp_all add: example_world_def)
  have 5: "write_newlines (linesep Posix)
      (foldl (\<lambda>text n. re_sub (id_lit n) text) (universal_newlines ordered_document)
         [1, 2, 3, 4, 5, 6, 7, 8, 9, 10, 11, 12, 13, 14, 15, 16, 17, 18, 19, 20,
          21, 22, 23, 24, 25, 26, 27, 28, 29, 30]) =
      id_lit 1 @ [nl] @ id_lit 2 @ completed_lit @ id_lit 1 @ completed_lit @ completed_lit"
    by code_simp
  from single_read_single_write [OF 1 2 3] show ?thesis
    unfolding 4 5 by (simp only: append_Nil)
qed

text \<open>
  C8.  When the file cannot be read the run ends with the read error and the world is
  as it was: the file is not written and nothing is printed.
\<close>

theorem read_failure_is_fatal:
  "file_content w = None \<Longrightarrow> main w = (Some ReadError, w)"
  by (rule main_read_failure)

theorem read_failure_is_fatal_witness:
  "main (example_world None ''2025-11-06'') = (Some ReadError, example_world None ''2025-11-06'')"
  by (rule read_failure_is_fatal) (simp add: example_world_def)

text \<open>
  C9, as stated, fails: the run depends on the environment.  The same bytes, a comment
  with an accented letter in UTF-8 and the pending record of task 1, are rewritten when
  the encoding of the locale is UTF-8 and make the run end with a decoding error, the file
  untouched, when the environment switches the UTF-8 mode off and the encoding is ASCII.
\<close>

theorem same_bytes_other_environment:
  "file_content (example_world (Some (accented_comment @ pending_record 1)) ''2025-11-06'') =
     file_content ((example_world (Some (accented_comment @ pending_record 1)) ''2025-11-06'')
       \<lparr>environment := utf8_mode_off\<rparr>) \<and>
   fst (main (example_world (Some (accented_comment @ pending_record 1)) ''2025-11-06'')) = None \<and>
   file_content (snd (main (example_world (Some (accented_comment @ pending_record 1)) ''2025-11-06''))) =
     Some (accented_comment @ completed_record 1) \<and>
   fst (main ((example_world (Some (accented_comment @ pending_record 1)) ''2025-11-06'')
       \<lparr>environment := utf8_mode_off\<rparr>)) = Some DecodeError \<and>
   file_content (snd (main ((example_world (Some (accented_comment @ pending_record 1)) ''2025-11-06'')
       \<lparr>environment := utf8_mode_off\<rparr>))) = Some (accented_comment @ pending_record 1)"
proof -
  let ?d = "accented_comment @ pending_record 1"
  let ?w = "example_world (Some ?d) ''2025-11-06''"
  let ?v = "?w\<lparr>environment := utf8_mode_off\<rparr>"
  have w: "file_content ?w = Some ?d" "file_writable ?w" "platform ?w = Posix"
    by (simp_all add: example_world_def)
  have v: "file_content ?v = Some ?d"
    by (simp add: example_world_def)
  have 1: "well_encoded (locale_encoding ?w) ?d"
    by code_simp
  have 2: "\<not> well_encoded (locale_encoding ?v) ?d"
    by code_simp
  have 3: "write_newlines (linesep Posix) (update_content (universal_newlines ?d)) =
      accented_comment @ completed_record 1"
    by code_simp
  from main_success [OF w(1) 1 w(2)] 3 w(3)
  have "fst (main ?w) = None"
    and "file_content (snd (main ?w)) = Some (accented_comment @ completed_record 1)"
    by simp_all
  moreover from main_decode_failure [OF v 2]
  have "fst (main ?v) = Some DecodeError" and "file_content (snd (main ?v)) = Some ?d"
    using v by simp_all
  ultimately show ?thesis
    using w(1) v by simp
qed

text \<open>
  C9, amended.  The run is a function of the bytes of the file, of whether it can be
  written, of the encoding of the locale and of the line separator of the operating
  system: two worlds that agree on these four end with the same result, leave the same
  bytes in the file and add the same effects, the printed message among them, whatever
  their clocks show and whatever else their environments hold.  The date stamped is the
  literal: whenever the pass changes the text that was read, the bytes written hold the
  line \<^verbatim>\<open>completed_date: "2025-11-05"\<close>.
\<close>

theorem run_depends_on_bytes_and_locale:
  assumes "file_content w1 = file_content w2" and "file_writable w1 = file_writable w2"
    and "locale_encoding w1 = locale_encoding w2" and "platform w1 = platform w2"
  shows \<open>fst (main w1) = fst (main w2) \<and>
         file_content (snd (main w1)) = file_content (snd (main w2)) \<and>
         (\<exists>es. effects (snd (main w1)) = effects w1 @ es \<and>
               effects (snd (main w2)) = effects w2 @ es) \<and>
         (\<forall>bytes. file_content w1 = Some bytes \<and> well_encoded (locale_encoding w1) bytes \<and>
              file_writable w1 \<and>
              update_content (universal_newlines bytes) \<noteq> universal_newlines bytes \<longrightarrow>
            (\<exists>out. file_content (snd (main w1)) = Some out \<and>
                   sublist ''completed_date: "2025-11-05"'' out))\<close>
proof -
  have same: "fst (main w1) = fst (main w2) \<and>
         file_content (snd (main w1)) = file_content (snd (main w2)) \<and>
         (\<exists>es. effects (snd (main w1)) = effects w1 @ es \<and>
               effects (snd (main w2)) = effects w2 @ es)"
  proof (cases "file_content w1")
    case None
    with assms(1) have "main w1 = (Some ReadError, w1)" "main w2 = (Some ReadError, w2)"
      by (simp_all add: main_read_failure)
    with None assms(1) show ?thesis
      by simp
  next
    case (Some bytes)
    with assms(1) have 2: "file_content w2 = Some bytes"
      by simp
    show ?thesis
    proof (cases "well_encoded (locale_encoding w1) bytes")
      case False
      with assms(3) have "\<not> well_encoded (locale_encoding w2) bytes"
        by simp
      with 2 have "main w2 = (Some DecodeError, w2)"
        by (rule main_decode_failure)
      moreover from Some False have "main w1 = (Some DecodeError, w1)"
        by (rule main_decode_failure)
      ultimately show ?thesis
        using Some 2 by simp
    next
      case True
      with assms(3) have T2: "well_encoded (locale_encoding w2) bytes"
        by simp
      show ?thesis
      proof (cases "file_writable w1")
        case False
        with assms(2) have "\<not> file_writable w2"
          by simp
        with 2 T2 have "main w2 = (Some WriteError, w2\<lparr>effects := effects w2 @ [Read]\<rparr>)"
          by (rule main_write_failure)
        moreover from Some True False
        have "main w1 = (Some WriteError, w1\<lparr>effects := effects w1 @ [Read]\<rparr>)"
          by (rule main_write_failure)
        ultimately show ?thesis
          using Some 2 by simp
      next
        case W: True
        with assms(2) have "file_writable w2"
          by simp
        from main_success [OF 2 T2 this] main_success [OF Some True W] assms(4)
        show ?thesis
          by simp
      qed
    qed
  qed
  have date: \<open>\<exists>out. file_content (snd (main w1)) = Some out \<and>
                   sublist ''completed_date: "2025-11-05"'' out\<close>
    if "file_content w1 = Some bytes" and "well_encoded (locale_encoding w1) bytes"
      and "file_writable w1"
      and "update_content (universal_newlines bytes) \<noteq> universal_newlines bytes" for bytes
  proof -
    have "completes (universal_newlines bytes) (update_content (universal_newlines bytes))"
      unfolding update_content_def by (rule completes_fold)
    then have "sublist completed_lit (update_content (universal_newlines bytes))"
      using that(4) [symmetric] by (rule completes_changed)
    with date_line_in_completed
    have \<open>sublist ''completed_date: "2025-11-05"'' (update_content (universal_newlines bytes))\<close>
      by (rule sublist_order.order.trans)
    then have \<open>sublist ''completed_date: "2025-11-05"''
        (write_newlines (linesep (platform w1)) (update_content (universal_newlines bytes)))\<close>
      by (rule sublist_write_newlines) (simp add: nl_def)
    with main_success [OF that(1,2,3)] show ?thesis
      by simp
  qed
  from same date show ?thesis
    by blast
qed

theorem run_depends_on_bytes_and_locale_witness:
  \<open>fst (main (example_world (Some (pending_record 3)) ''2025-11-06'')) =
     fst (main ((example_world (Some (pending_record 3)) ''2031-01-01'')
       \<lparr>environment := home_set, effects := [Print ''earlier'']\<rparr>)) \<and>
   file_content (snd (main (example_world (Some (pending_record 3)) ''2025-11-06''))) =
     file_content (snd (main ((example_world (Some (pending_record 3)) ''2031-01-01'')
       \<lparr>environment := home_set, effects := [Print ''earlier'']\<rparr>))) \<and>
   (\<exists>out. file_content (snd (main (example_world (Some (pending_record 3)) ''2025-11-06''))) =
        Some out \<and> sublist ''completed_date: "2025-11-05"'' out)\<close>
proof -
  let ?w1 = "example_world (Some (pending_record 3)) ''2025-11-06''"
  let ?w2 = "(example_world (Some (pending_record 3)) ''2031-01-01'')
       \<lparr>environment := home_set, effects := [Print ''earlier'']\<rparr>"
  have 1: "file_content ?w1 = file_content ?w2" "file_writable ?w1 = file_writable ?w2"
    "platform ?w1 = platform ?w2"
    by (simp_all add: example_world_def)
  have 2: "locale_encoding ?w1 = locale_encoding ?w2"
    by code_simp
  have 3: "file_content ?w1 = Some (pending_record 3)" "file_writable ?w1"
    by (simp_all add: example_world_def)
  have 4: "well_encoded (locale_encoding ?w1) (pending_record 3)"
    by code_simp
  have 5: "update_content (universal_newlines (pending_record 3)) \<noteq>
      universal_newlines (pending_record 3)"
    by code_simp
  from run_depends_on_bytes_and_locale [OF 1(1,2) 2 1(3)] 3 4 5 show ?thesis
    by blast
qed

end
